theory Spec2Isabelle
  imports Complex_Main "HOL-Library.Word" "HOL-Library.Log_Nat"
begin

section \<open>Conway's Game of Life on a 40x40 torus: the model of \<open>main.c\<close>\<close>

text \<open>
  The program keeps all of its state in two globals, \<open>g_map\<close> and \<open>g_sim\<close>, and in the
  function-local static \<open>accumulatedSeconds\<close> of \<open>tickSimulationTimer\<close>. The model passes
  that state explicitly. Conventions:
  \<^item> a \<open>Cell *\<close> is the address \<open>&g_map.cellMap[i][j]\<close>, modelled by the index pair
    \<open>(i, j)\<close>; \<open>cellMap\<close> is the store from those addresses to cell values. The only
    \<open>Cell *\<close> that is ever null is \<open>dragStartCell\<close>, hence an \<open>option\<close>; the eight
    neighbour pointers of a cell are written by \<open>SDL_AppInit\<close> before any other callback
    runs and are never written again;
  \<^item> an \<open>SDL_FRect *\<close> is the address \<open>&g_map.cellDrawList[k]\<close>, modelled by \<open>k\<close>;
  \<^item> \<open>int\<close> values are \<open>int\<close> (no computation of the program leaves the range of a C
    \<open>int\<close>), \<open>uint64_t\<close> is \<open>64 word\<close>;
  \<^item> the value of a \<open>float\<close> or \<open>double\<close> variable is a rational number. The functions
    compute with these values exactly; for the clock there is, beside the exact
    \<open>tickSimulationTimer\<close>, the function \<open>tickSimulationTimer_rounded\<close> that keeps the rounding
    of every \<open>double\<close> operation. Infinities and NaN are not modelled;
  \<^item> what SDL returns (the performance counter and its frequency, the success of
    initialisation, the point-in-rectangle test) is an argument of the function that
    asks for it; drawing is not modelled.
\<close>

subsection \<open>Constants\<close>

definition FPS :: rat where "FPS = 20"
definition MAX_WIDTH :: int where "MAX_WIDTH = 800"
definition MAX_HEIGHT :: int where "MAX_HEIGHT = 800"
definition GRID_SIZE_X :: int where "GRID_SIZE_X = 40"
definition GRID_SIZE_Y :: int where "GRID_SIZE_Y = 40"
definition GRID_GAP :: int where "GRID_GAP = 1"
definition NUM_CELL_NEIGHBORS :: nat where "NUM_CELL_NEIGHBORS = 8"

definition CELL_WIDTH :: rat where
  "CELL_WIDTH = of_int MAX_WIDTH / of_int GRID_SIZE_X - of_int GRID_GAP"

definition CELL_HEIGHT :: rat where
  "CELL_HEIGHT = of_int MAX_WIDTH / of_int GRID_SIZE_Y - of_int GRID_GAP"

text \<open>Values of the SDL3 headers that the event handler compares against.\<close>

definition SDL_BUTTON_LEFT :: "8 word" where "SDL_BUTTON_LEFT = 1"
definition SDL_BUTTON_LMASK :: "32 word" where "SDL_BUTTON_LMASK = 1"
definition SDLK_P :: "32 word" where "SDLK_P = 0x70"
definition SDLK_PERIOD :: "32 word" where "SDLK_PERIOD = 0x2e"
definition SDLK_R :: "32 word" where "SDLK_R = 0x72"
definition SDL_ALPHA_OPAQUE :: int where "SDL_ALPHA_OPAQUE = 255"

subsection \<open>Data\<close>

record Color =
  col_r :: int
  col_g :: int
  col_b :: int
  col_a :: int

record SDL_FRect =
  rect_x :: rat
  rect_y :: rat
  rect_w :: rat
  rect_h :: rat

record SDL_FPoint =
  point_x :: rat
  point_y :: rat

type_synonym cell_ptr = "int \<times> int"

record Cell =
  isAlive :: bool
  frect :: int
  neighbors :: "cell_ptr list"
  color :: Color
  cell_x :: int
  cell_y :: int

record MapSystem =
  cellDrawList :: "int \<Rightarrow> SDL_FRect"
  cellCount :: int
  cellMap :: "cell_ptr \<Rightarrow> Cell"
  dragStartCell :: "cell_ptr option"

record SimulationSystem =
  isAFixedUpdate :: bool
  timestamp :: "64 word"
  fps :: rat
  isPlaying :: bool
  shouldRunFrame :: bool

record App =
  g_map :: MapSystem
  g_sim :: SimulationSystem
  accumulatedSeconds :: rat

datatype SDL_AppResult = SDL_APP_CONTINUE | SDL_APP_SUCCESS | SDL_APP_FAILURE

datatype CellSetAction = CELL_SET_ALIVE | CELL_SET_DEAD | CELL_TOGGLE

record SDL_MouseButtonEvent =
  button :: "8 word"
  button_x :: rat
  button_y :: rat

record SDL_MouseMotionEvent =
  state :: "32 word"
  motion_x :: rat
  motion_y :: rat

record SDL_KeyboardEvent =
  key :: "32 word"

datatype SDL_Event =
    SDL_EVENT_QUIT
  | SDL_EVENT_MOUSE_BUTTON_DOWN SDL_MouseButtonEvent
  | SDL_EVENT_MOUSE_MOTION SDL_MouseMotionEvent
  | SDL_EVENT_KEY_DOWN SDL_KeyboardEvent
  | SDL_EVENT_OTHER

definition deadCellColor :: Color where
  "deadCellColor = \<lparr>col_r = 56, col_g = 59, col_b = 64, col_a = SDL_ALPHA_OPAQUE\<rparr>"

definition aliveCellColor :: Color where
  "aliveCellColor = \<lparr>col_r = 195, col_g = 199, col_b = 205, col_a = SDL_ALPHA_OPAQUE\<rparr>"

subsection \<open>\<open>SDL_AppInit\<close>\<close>

text \<open>
  The inner loop body of \<open>SDL_AppInit\<close> for column \<open>i\<close> of row \<open>j\<close> writes every field
  of \<open>g_map.cellDrawList[GRID_SIZE_X * j + i]\<close> and of \<open>g_map.cellMap[i][j]\<close>:
  \<open>cellRect\<close> and \<open>cellInit\<close> are the values written.
\<close>

definition cellRect :: "int \<Rightarrow> int \<Rightarrow> SDL_FRect" where
  "cellRect i j =
     \<lparr>rect_x = of_int GRID_GAP / 2 + of_int i * (CELL_WIDTH + of_int GRID_GAP),
      rect_y = of_int GRID_GAP / 2 + of_int j * (CELL_HEIGHT + of_int GRID_GAP),
      rect_w = CELL_WIDTH,
      rect_h = CELL_HEIGHT\<rparr>"

definition cellInit :: "int \<Rightarrow> int \<Rightarrow> Cell" where
  "cellInit i j =
     (let leftNeighborIndex = (if i - 1 < 0 then GRID_SIZE_X - 1 else i - 1);
          rightNeighborIndex = (if i + 1 \<ge> GRID_SIZE_X then 0 else i + 1);
          topNeighborIndex = (if j - 1 < 0 then GRID_SIZE_Y - 1 else j - 1);
          bottomNeighborIndex = (if j + 1 \<ge> GRID_SIZE_Y then 0 else j + 1)
      in \<lparr>isAlive = False,
          frect = GRID_SIZE_X * j + i,
          neighbors =
            [(leftNeighborIndex, j),
             (leftNeighborIndex, topNeighborIndex),
             (leftNeighborIndex, bottomNeighborIndex),
             (rightNeighborIndex, j),
             (rightNeighborIndex, topNeighborIndex),
             (rightNeighborIndex, bottomNeighborIndex),
             (i, topNeighborIndex),
             (i, bottomNeighborIndex)],
          color = aliveCellColor,
          cell_x = i,
          cell_y = j\<rparr>)"

definition initCell :: "int \<Rightarrow> int \<Rightarrow> MapSystem \<Rightarrow> MapSystem" where
  "initCell j i m =
     m\<lparr>cellDrawList := (cellDrawList m)(GRID_SIZE_X * j + i := cellRect i j),
       cellMap := (cellMap m)((i, j) := cellInit i j)\<rparr>"

definition initMap :: "MapSystem \<Rightarrow> MapSystem" where
  "initMap m =
     fold (\<lambda>j. fold (initCell j) [0..GRID_SIZE_X - 1]) [0..GRID_SIZE_Y - 1]
       (m\<lparr>cellCount := GRID_SIZE_X * GRID_SIZE_Y\<rparr>)"

text \<open>
  \<open>sdl_init_ok\<close> and \<open>window_ok\<close> are the results of \<open>SDL_Init\<close> and
  \<open>SDL_CreateWindowAndRenderer\<close>, \<open>counter\<close> the reading of \<open>SDL_GetPerformanceCounter\<close>.
  \<open>s\<close> is the state of the globals before the call.
\<close>

definition SDL_AppInit :: "bool \<Rightarrow> bool \<Rightarrow> 64 word \<Rightarrow> App \<Rightarrow> SDL_AppResult \<times> App" where
  "SDL_AppInit sdl_init_ok window_ok counter s =
     (if \<not> sdl_init_ok then (SDL_APP_FAILURE, s)
      else if \<not> window_ok then (SDL_APP_FAILURE, s)
      else
        (SDL_APP_CONTINUE,
         s\<lparr>g_sim := (g_sim s)\<lparr>fps := FPS, timestamp := counter,
                               isPlaying := False, isAFixedUpdate := False\<rparr>,
           g_map := initMap (g_map s)\<rparr>))"

subsection \<open>Editing cells with the pointer\<close>

text \<open>
  \<open>getCellUnderPoint\<close> scans the rows \<open>j\<close> and, in each row, the columns \<open>i\<close>, and returns
  at the first cell whose rectangle holds the point. \<open>inRect\<close> stands for
  \<open>SDL_PointInRectFloat\<close>, \<open>cellFRect m cell\<close> for the rectangle \<open>cell->frect\<close> points to.
\<close>

definition cellFRect :: "MapSystem \<Rightarrow> cell_ptr \<Rightarrow> SDL_FRect" where
  "cellFRect m cell = cellDrawList m (frect (cellMap m cell))"

fun scanRow ::
  "(SDL_FPoint \<Rightarrow> SDL_FRect \<Rightarrow> bool) \<Rightarrow> MapSystem \<Rightarrow> SDL_FPoint \<Rightarrow> int \<Rightarrow> int list
   \<Rightarrow> cell_ptr option" where
  "scanRow inRect m point j [] = None"
| "scanRow inRect m point j (i # is) =
     (if inRect point (cellFRect m (i, j)) then Some (i, j)
      else scanRow inRect m point j is)"

fun scanRows ::
  "(SDL_FPoint \<Rightarrow> SDL_FRect \<Rightarrow> bool) \<Rightarrow> MapSystem \<Rightarrow> SDL_FPoint \<Rightarrow> int list
   \<Rightarrow> cell_ptr option" where
  "scanRows inRect m point [] = None"
| "scanRows inRect m point (j # js) =
     (case scanRow inRect m point j [0..GRID_SIZE_X - 1] of
        Some cell \<Rightarrow> Some cell
      | None \<Rightarrow> scanRows inRect m point js)"

definition getCellUnderPoint ::
  "(SDL_FPoint \<Rightarrow> SDL_FRect \<Rightarrow> bool) \<Rightarrow> MapSystem \<Rightarrow> rat \<Rightarrow> rat \<Rightarrow> cell_ptr option" where
  "getCellUnderPoint inRect m x y =
     scanRows inRect m \<lparr>point_x = x, point_y = y\<rparr> [0..GRID_SIZE_Y - 1]"

text \<open>The assignment \<open>cell->isAlive = v\<close>.\<close>

definition setIsAlive :: "cell_ptr \<Rightarrow> bool \<Rightarrow> MapSystem \<Rightarrow> MapSystem" where
  "setIsAlive cell v m = m\<lparr>cellMap := (cellMap m)(cell := (cellMap m cell)\<lparr>isAlive := v\<rparr>)\<rparr>"

definition setCellUnderPoint ::
  "(SDL_FPoint \<Rightarrow> SDL_FRect \<Rightarrow> bool) \<Rightarrow> rat \<Rightarrow> rat \<Rightarrow> CellSetAction \<Rightarrow> MapSystem \<Rightarrow> MapSystem" where
  "setCellUnderPoint inRect x y action m =
     (case getCellUnderPoint inRect m x y of
        None \<Rightarrow> m
      | Some cell \<Rightarrow>
          (case action of
             CELL_SET_ALIVE \<Rightarrow> setIsAlive cell True m
           | CELL_SET_DEAD \<Rightarrow> setIsAlive cell False m
           | CELL_TOGGLE \<Rightarrow> setIsAlive cell (\<not> isAlive (cellMap m cell)) m))"

definition handleDragStart ::
  "(SDL_FPoint \<Rightarrow> SDL_FRect \<Rightarrow> bool) \<Rightarrow> SDL_MouseButtonEvent \<Rightarrow> MapSystem \<Rightarrow> MapSystem" where
  "handleDragStart inRect b m =
     m\<lparr>dragStartCell := getCellUnderPoint inRect m (button_x b) (button_y b)\<rparr>"

definition handleDragMotion ::
  "(SDL_FPoint \<Rightarrow> SDL_FRect \<Rightarrow> bool) \<Rightarrow> SDL_MouseMotionEvent \<Rightarrow> MapSystem \<Rightarrow> MapSystem" where
  "handleDragMotion inRect motion m =
     (case dragStartCell m of
        None \<Rightarrow> m
      | Some start \<Rightarrow>
          (let action = (if isAlive (cellMap m start) then CELL_SET_ALIVE else CELL_SET_DEAD)
           in setCellUnderPoint inRect (motion_x motion) (motion_y motion) action m))"

definition handleSimulationReset :: "MapSystem \<Rightarrow> MapSystem" where
  "handleSimulationReset m =
     fold (\<lambda>j. fold (\<lambda>i. setIsAlive (i, j) False) [0..GRID_SIZE_X - 1]) [0..GRID_SIZE_Y - 1] m"

subsection \<open>\<open>SDL_AppEvent\<close>\<close>

definition SDL_AppEvent ::
  "(SDL_FPoint \<Rightarrow> SDL_FRect \<Rightarrow> bool) \<Rightarrow> SDL_Event \<Rightarrow> App \<Rightarrow> SDL_AppResult \<times> App" where
  "SDL_AppEvent inRect event s =
     (case event of
        SDL_EVENT_QUIT \<Rightarrow> (SDL_APP_SUCCESS, s)
      | SDL_EVENT_MOUSE_BUTTON_DOWN b \<Rightarrow>
          (if button b = SDL_BUTTON_LEFT then
             (let s1 = s\<lparr>g_sim := (g_sim s)\<lparr>isPlaying := False\<rparr>\<rparr>;
                  s2 = s1\<lparr>g_map := setCellUnderPoint inRect (button_x b) (button_y b)
                                      CELL_TOGGLE (g_map s1)\<rparr>;
                  s3 = s2\<lparr>g_map := handleDragStart inRect b (g_map s2)\<rparr>
              in (SDL_APP_CONTINUE, s3))
           else (SDL_APP_CONTINUE, s))
      | SDL_EVENT_MOUSE_MOTION motion \<Rightarrow>
          (if state motion = SDL_BUTTON_LMASK then
             (let s1 = s\<lparr>g_sim := (g_sim s)\<lparr>isPlaying := False\<rparr>\<rparr>;
                  s2 = s1\<lparr>g_map := handleDragMotion inRect motion (g_map s1)\<rparr>
              in (SDL_APP_CONTINUE, s2))
           else (SDL_APP_CONTINUE, s))
      | SDL_EVENT_KEY_DOWN k \<Rightarrow>
          (if key k = SDLK_P then
             (SDL_APP_CONTINUE, s\<lparr>g_sim := (g_sim s)\<lparr>isPlaying := \<not> isPlaying (g_sim s)\<rparr>\<rparr>)
           else if key k = SDLK_PERIOD then
             (SDL_APP_CONTINUE, s\<lparr>g_sim := (g_sim s)\<lparr>shouldRunFrame := True\<rparr>\<rparr>)
           else if key k = SDLK_R then
             (SDL_APP_CONTINUE, s\<lparr>g_map := handleSimulationReset (g_map s)\<rparr>)
           else (SDL_APP_CONTINUE, s))
      | SDL_EVENT_OTHER \<Rightarrow> (SDL_APP_CONTINUE, s))"

subsection \<open>The generation advance\<close>

text \<open>
  \<open>getNumLiveNeighbors\<close> reads \<open>cell->neighbors[i]->isAlive\<close> for \<open>i\<close> from 0 to 7.
\<close>

definition getNumLiveNeighbors :: "MapSystem \<Rightarrow> cell_ptr \<Rightarrow> int" where
  "getNumLiveNeighbors m cell =
     fold (\<lambda>i numLiveNeighbors.
             if isAlive (cellMap m (neighbors (cellMap m cell) ! i))
             then numLiveNeighbors + 1 else numLiveNeighbors)
       [0..<NUM_CELL_NEIGHBORS] 0"

text \<open>
  The body of the test loop. The two local arrays \<open>cellsToBirth\<close> and \<open>cellsToKill\<close>, each
  with its counter, are the two lists of the pair: storing at the counter and incrementing
  it appends. The loop does not write to \<open>g_map\<close>.
\<close>

definition testCell ::
  "MapSystem \<Rightarrow> int \<Rightarrow> int \<Rightarrow> cell_ptr list \<times> cell_ptr list \<Rightarrow> cell_ptr list \<times> cell_ptr list" where
  "testCell m j i staged =
     (let cell = (i, j);
          liveNeighbors = getNumLiveNeighbors m cell;
          cellsToBirth = fst staged;
          cellsToKill = snd staged
      in if isAlive (cellMap m cell) \<and> (liveNeighbors < 2 \<or> liveNeighbors > 3)
         then (cellsToBirth, cellsToKill @ [cell])
         else if \<not> isAlive (cellMap m cell) \<and> liveNeighbors = 3
         then (cellsToBirth @ [cell], cellsToKill)
         else (cellsToBirth, cellsToKill))"

definition testCells :: "MapSystem \<Rightarrow> cell_ptr list \<times> cell_ptr list" where
  "testCells m =
     fold (\<lambda>j. fold (testCell m j) [0..GRID_SIZE_X - 1]) [0..GRID_SIZE_Y - 1] ([], [])"

definition simulateConwayIteration :: "MapSystem \<Rightarrow> MapSystem" where
  "simulateConwayIteration m =
     (let staged = testCells m;
          cellsToBirth = fst staged;
          cellsToKill = snd staged;
          m1 = fold (\<lambda>cell. setIsAlive cell True) cellsToBirth m;
          m2 = fold (\<lambda>cell. setIsAlive cell False) cellsToKill m1
      in m2)"

subsection \<open>Double arithmetic\<close>

text \<open>
  An IEEE 754 operation on \<open>double\<close> returns the exact result rounded to a nearest
  \<open>double\<close>. The finite doubles are the rationals \<open>m * 2^e\<close> with \<open>|m| < 2^53\<close> and
  \<open>e \<ge> -1074\<close>; the upper bound of the exponent is left out, so overflow to infinity is
  not modelled.
\<close>

definition isDouble :: "rat \<Rightarrow> bool" where
  "isDouble x = (\<exists>m e. x = of_int m * 2 powi e \<and> \<bar>m\<bar> < 2 ^ 53 \<and> - 1074 \<le> e)"

text \<open>A rounding to a nearest double, whatever it does at a tie.\<close>

definition roundsToNearest :: "(rat \<Rightarrow> rat) \<Rightarrow> bool" where
  "roundsToNearest rnd =
     (\<forall>x. isDouble (rnd x) \<and> (\<forall>d. isDouble d \<longrightarrow> \<bar>rnd x - x\<bar> \<le> \<bar>d - x\<bar>))"

text \<open>
  \<open>binary64\<close> is the rounding of the default mode, to nearest with ties to even:
  \<open>expo x\<close> is the binary exponent of \<open>x\<close>, the integer \<open>k\<close> with \<open>2^k \<le> |x| < 2^(k+1)\<close>,
  \<open>quantum x\<close> the distance between the doubles around \<open>x\<close>, and \<open>x\<close> is rounded to a
  nearest multiple of it.
\<close>

definition expo :: "rat \<Rightarrow> int" where
  "expo x =
     (let (p, q) = quotient_of \<bar>x\<bar>; d = bitlen p - bitlen q
      in if 2 powi d \<le> \<bar>x\<bar> then d else d - 1)"

definition roundToEven :: "rat \<Rightarrow> int" where
  "roundToEven y =
     (let f = \<lfloor>y\<rfloor>; r = y - of_int f
      in if r < 1 / 2 then f else if 1 / 2 < r then f + 1 else if even f then f else f + 1)"

definition quantum :: "rat \<Rightarrow> rat" where
  "quantum x = 2 powi (max (expo x - 52) (- 1074))"

definition binary64 :: "rat \<Rightarrow> rat" where
  "binary64 x = (if x = 0 then 0 else of_int (roundToEven (x / quantum x)) * quantum x)"

text \<open>
  What the clock needs of a rounding \<open>rnd\<close>, where the representable values are the
  \<open>x\<close> with \<open>rnd x = x\<close>: it is monotone, it leaves its results as they are, the difference
  of two representable values \<open>b \<le> a \<le> 2 * b\<close> is representable, and the difference of
  two distinct representable values does not round to 0.
\<close>

definition roundingLaws :: "(rat \<Rightarrow> rat) \<Rightarrow> bool" where
  "roundingLaws rnd =
     ((\<forall>x y. x \<le> y \<longrightarrow> rnd x \<le> rnd y) \<and>
      (\<forall>x. rnd (rnd x) = rnd x) \<and>
      (\<forall>a b. rnd a = a \<and> rnd b = b \<and> b \<le> a \<and> a \<le> 2 * b \<longrightarrow> rnd (a - b) = a - b) \<and>
      (\<forall>a b. rnd a = a \<and> rnd b = b \<and> b < a \<longrightarrow> 0 < rnd (a - b)))"

subsection \<open>The clock and \<open>SDL_AppIterate\<close>\<close>

text \<open>
  \<open>now\<close> is the reading of \<open>SDL_GetPerformanceCounter\<close> in this call, \<open>freq\<close> the value of
  \<open>SDL_GetPerformanceFrequency\<close>. The difference of the two timestamps is taken in
  \<open>uint64_t\<close> and wraps around before it is converted to \<open>double\<close>.
\<close>

definition tickSimulationTimer :: "64 word \<Rightarrow> 64 word \<Rightarrow> App \<Rightarrow> App" where
  "tickSimulationTimer now freq s =
     (let cycleTime = 1 / fps (g_sim s);
          lastTimestamp = timestamp (g_sim s);
          s1 = s\<lparr>g_sim := (g_sim s)\<lparr>timestamp := now\<rparr>\<rparr>;
          delta = (of_nat (unat (timestamp (g_sim s1) - lastTimestamp)) :: rat);
          acc = accumulatedSeconds s1 + delta / of_nat (unat freq)
      in if acc > cycleTime
         then s1\<lparr>accumulatedSeconds := acc - cycleTime,
                 g_sim := (g_sim s1)\<lparr>isAFixedUpdate := True\<rparr>\<rparr>
         else s1\<lparr>accumulatedSeconds := acc,
                 g_sim := (g_sim s1)\<lparr>isAFixedUpdate := False\<rparr>\<rparr>)"

text \<open>
  The same function with the rounding of the \<open>double\<close> arithmetic kept: \<open>1.0 / g_sim.fps\<close>,
  the conversions of the \<open>uint64_t\<close> difference and of the frequency to \<open>double\<close>, the
  division, the \<open>+=\<close> and the \<open>-=\<close> each round their exact result with \<open>rnd\<close>.
\<close>

definition tickSimulationTimer_rounded ::
  "(rat \<Rightarrow> rat) \<Rightarrow> 64 word \<Rightarrow> 64 word \<Rightarrow> App \<Rightarrow> App" where
  "tickSimulationTimer_rounded rnd now freq s =
     (let cycleTime = rnd (1 / fps (g_sim s));
          lastTimestamp = timestamp (g_sim s);
          s1 = s\<lparr>g_sim := (g_sim s)\<lparr>timestamp := now\<rparr>\<rparr>;
          delta = rnd (of_nat (unat (timestamp (g_sim s1) - lastTimestamp)));
          acc = rnd (accumulatedSeconds s1 + rnd (delta / rnd (of_nat (unat freq))))
      in if acc > cycleTime
         then s1\<lparr>accumulatedSeconds := rnd (acc - cycleTime),
                 g_sim := (g_sim s1)\<lparr>isAFixedUpdate := True\<rparr>\<rparr>
         else s1\<lparr>accumulatedSeconds := acc,
                 g_sim := (g_sim s1)\<lparr>isAFixedUpdate := False\<rparr>\<rparr>)"

definition SDL_AppIterate :: "64 word \<Rightarrow> 64 word \<Rightarrow> App \<Rightarrow> SDL_AppResult \<times> App" where
  "SDL_AppIterate now freq s =
     (let s1 = tickSimulationTimer now freq s;
          s2 = (if (isPlaying (g_sim s1) \<or> shouldRunFrame (g_sim s1)) \<and> isAFixedUpdate (g_sim s1)
                then s1\<lparr>g_sim := (g_sim s1)\<lparr>shouldRunFrame := False\<rparr>,
                        g_map := simulateConwayIteration (g_map s1)\<rparr>
                else s1);
          s3 = (if isPlaying (g_sim s2)
                then s2\<lparr>g_sim := (g_sim s2)\<lparr>timestamp := timestamp (g_sim s2) + 1\<rparr>\<rparr>
                else s2)
      in (SDL_APP_CONTINUE, s3))"

subsection \<open>The callbacks as SDL runs them\<close>

text \<open>
  With \<open>SDL_MAIN_USE_CALLBACKS\<close>, SDL calls \<open>SDL_AppInit\<close> once and then \<open>SDL_AppEvent\<close>
  for every event and \<open>SDL_AppIterate\<close> for every frame, on one thread, until a callback
  returns something other than \<open>SDL_APP_CONTINUE\<close>.
\<close>

datatype Callback = AppEvent SDL_Event | AppIterate "64 word"

definition callback ::
  "(SDL_FPoint \<Rightarrow> SDL_FRect \<Rightarrow> bool) \<Rightarrow> 64 word \<Rightarrow> Callback \<Rightarrow> App \<Rightarrow> SDL_AppResult \<times> App" where
  "callback inRect freq cb s =
     (case cb of
        AppEvent event \<Rightarrow> SDL_AppEvent inRect event s
      | AppIterate now \<Rightarrow> SDL_AppIterate now freq s)"

fun runCallbacks ::
  "(SDL_FPoint \<Rightarrow> SDL_FRect \<Rightarrow> bool) \<Rightarrow> 64 word \<Rightarrow> Callback list \<Rightarrow> App \<Rightarrow> App" where
  "runCallbacks inRect freq [] s = s"
| "runCallbacks inRect freq (cb # cbs) s =
     (case callback inRect freq cb s of
        (SDL_APP_CONTINUE, s') \<Rightarrow> runCallbacks inRect freq cbs s'
      | (_, s') \<Rightarrow> s')"

text \<open>Consecutive frames with no event between them, at the counter readings \<open>nows\<close>.\<close>

fun iterateAll :: "64 word \<Rightarrow> 64 word list \<Rightarrow> App \<Rightarrow> App" where
  "iterateAll freq [] s = s"
| "iterateAll freq (now # nows) s = iterateAll freq nows (snd (SDL_AppIterate now freq s))"

text \<open>
  Two observations of a frame: whether its clock tick was due, and whether the frame took
  the branch of \<open>SDL_AppIterate\<close> that calls \<open>simulateConwayIteration\<close>.
\<close>

definition tickIsDue :: "64 word \<Rightarrow> 64 word \<Rightarrow> App \<Rightarrow> bool" where
  "tickIsDue now freq s = isAFixedUpdate (g_sim (tickSimulationTimer now freq s))"

definition frameAdvances :: "64 word \<Rightarrow> 64 word \<Rightarrow> App \<Rightarrow> bool" where
  "frameAdvances now freq s =
     (let s1 = tickSimulationTimer now freq s
      in (isPlaying (g_sim s1) \<or> shouldRunFrame (g_sim s1)) \<and> isAFixedUpdate (g_sim s1))"

fun dueTrace :: "64 word \<Rightarrow> 64 word list \<Rightarrow> App \<Rightarrow> bool list" where
  "dueTrace freq [] s = []"
| "dueTrace freq (now # nows) s =
     tickIsDue now freq s # dueTrace freq nows (snd (SDL_AppIterate now freq s))"

fun advanceTrace :: "64 word \<Rightarrow> 64 word list \<Rightarrow> App \<Rightarrow> bool list" where
  "advanceTrace freq [] s = []"
| "advanceTrace freq (now # nows) s =
     frameAdvances now freq s # advanceTrace freq nows (snd (SDL_AppIterate now freq s))"

text \<open>
  \<open>n\<close> calls of \<open>tickSimulationTimer\<close>, each at a counter reading \<open>d\<close> ticks after the
  reading of the call before.
\<close>

fun tickEvery :: "64 word \<Rightarrow> 64 word \<Rightarrow> nat \<Rightarrow> App \<Rightarrow> App" where
  "tickEvery freq d 0 s = s"
| "tickEvery freq d (Suc n) s =
     (let s' = tickEvery freq d n s
      in tickSimulationTimer (timestamp (g_sim s') + d) freq s')"

subsection \<open>The globals before \<open>SDL_AppInit\<close>\<close>

text \<open>
  The globals as the C runtime zero-initialises them (\<open>g_map = {0}\<close>, \<open>g_sim = {0}\<close>,
  \<open>accumulatedSeconds = 0\<close>). The null rectangle and neighbour pointers of the cells have no
  counterpart in the model: \<open>SDL_AppInit\<close> overwrites every one of them before it is read,
  and they stand here as index 0 and the empty list.
\<close>

definition zeroCell :: Cell where
  "zeroCell = \<lparr>isAlive = False, frect = 0, neighbors = [],
                color = \<lparr>col_r = 0, col_g = 0, col_b = 0, col_a = 0\<rparr>,
                cell_x = 0, cell_y = 0\<rparr>"

definition zeroApp :: App where
  "zeroApp =
     \<lparr>g_map = \<lparr>cellDrawList = (\<lambda>k. \<lparr>rect_x = 0, rect_y = 0, rect_w = 0, rect_h = 0\<rparr>),
               cellCount = 0,
               cellMap = (\<lambda>cell. zeroCell),
               dragStartCell = None\<rparr>,
      g_sim = \<lparr>isAFixedUpdate = False, timestamp = 0, fps = 0,
               isPlaying = False, shouldRunFrame = False\<rparr>,
      accumulatedSeconds = 0\<rparr>"

subsection \<open>SDL's point-in-rectangle test\<close>

text \<open>
  \<open>SDL_PointInRectFloat\<close> as the SDL3 header \<open>SDL_rect.h\<close> defines it for non-null arguments:
  both edges of the rectangle are inside.
\<close>

definition SDL_PointInRectFloat :: "SDL_FPoint \<Rightarrow> SDL_FRect \<Rightarrow> bool" where
  "SDL_PointInRectFloat p r =
     (point_x p \<ge> rect_x r \<and> point_x p \<le> rect_x r + rect_w r \<and>
      point_y p \<ge> rect_y r \<and> point_y p \<le> rect_y r + rect_h r)"

section \<open>Notions of the specification\<close>

text \<open>The cells of the grid: the addresses \<open>&g_map.cellMap[i][j]\<close> with both indices in range.\<close>

definition inGrid :: "cell_ptr \<Rightarrow> bool" where
  "inGrid cell =
     (0 \<le> fst cell \<and> fst cell < GRID_SIZE_X \<and> 0 \<le> snd cell \<and> snd cell < GRID_SIZE_Y)"

text \<open>
  Conway's rule as the specification words it: a live cell with fewer than 2 or more than
  3 live neighbours dies, a dead cell with exactly 3 live neighbours is born, every other
  cell keeps its state.
\<close>

definition spec_nextState :: "bool \<Rightarrow> int \<Rightarrow> bool" where
  "spec_nextState alive n =
     (if alive \<and> (n < 2 \<or> n > 3) then False
      else if \<not> alive \<and> n = 3 then True
      else alive)"

definition birthDue :: "MapSystem \<Rightarrow> cell_ptr \<Rightarrow> bool" where
  "birthDue m cell = (\<not> isAlive (cellMap m cell) \<and> getNumLiveNeighbors m cell = 3)"

definition deathDue :: "MapSystem \<Rightarrow> cell_ptr \<Rightarrow> bool" where
  "deathDue m cell =
     (isAlive (cellMap m cell) \<and>
      (getNumLiveNeighbors m cell < 2 \<or> getNumLiveNeighbors m cell > 3))"

text \<open>
  \<open>m'\<close> has the rectangles of \<open>m\<close> and, in every cell, the fields of \<open>m\<close> other than
  \<open>isAlive\<close>.
\<close>

definition onlyLivenessDiffers :: "MapSystem \<Rightarrow> MapSystem \<Rightarrow> bool" where
  "onlyLivenessDiffers m m' =
     (cellDrawList m' = cellDrawList m \<and> cellCount m' = cellCount m \<and>
      (\<forall>cell. frect (cellMap m' cell) = frect (cellMap m cell) \<and>
              neighbors (cellMap m' cell) = neighbors (cellMap m cell) \<and>
              color (cellMap m' cell) = color (cellMap m cell) \<and>
              cell_x (cellMap m' cell) = cell_x (cellMap m cell) \<and>
              cell_y (cellMap m' cell) = cell_y (cellMap m cell)))"

text \<open>
  The toroidal Moore neighbourhood in the order of the specification: left, left-top,
  left-bottom, right, right-top, right-bottom, top, bottom; coordinate \<open>-1\<close> wraps to
  \<open>W - 1\<close> (or \<open>H - 1\<close>) and \<open>W\<close> (or \<open>H\<close>) wraps to 0.
\<close>

definition spec_torusNeighbors :: "cell_ptr \<Rightarrow> cell_ptr list" where
  "spec_torusNeighbors cell =
     (let x = fst cell; y = snd cell
      in [((x - 1) mod GRID_SIZE_X, y),
          ((x - 1) mod GRID_SIZE_X, (y - 1) mod GRID_SIZE_Y),
          ((x - 1) mod GRID_SIZE_X, (y + 1) mod GRID_SIZE_Y),
          ((x + 1) mod GRID_SIZE_X, y),
          ((x + 1) mod GRID_SIZE_X, (y - 1) mod GRID_SIZE_Y),
          ((x + 1) mod GRID_SIZE_X, (y + 1) mod GRID_SIZE_Y),
          (x, (y - 1) mod GRID_SIZE_Y),
          (x, (y + 1) mod GRID_SIZE_Y)])"

definition toroidalTopology :: "MapSystem \<Rightarrow> bool" where
  "toroidalTopology m =
     (\<forall>cell. inGrid cell \<longrightarrow> neighbors (cellMap m cell) = spec_torusNeighbors cell)"

text \<open>Marks the first \<open>True\<close> of a list and nothing after it.\<close>

fun spec_firstOnly :: "bool list \<Rightarrow> bool list" where
  "spec_firstOnly [] = []"
| "spec_firstOnly (True # bs) = True # map (\<lambda>b. False) bs"
| "spec_firstOnly (False # bs) = False # spec_firstOnly bs"

text \<open>The two states agree in everything but the single-step request \<open>shouldRunFrame\<close>.\<close>

definition sameButRequest :: "App \<Rightarrow> App \<Rightarrow> bool" where
  "sameButRequest s t =
     (g_map s = g_map t \<and> accumulatedSeconds s = accumulatedSeconds t \<and>
      isAFixedUpdate (g_sim s) = isAFixedUpdate (g_sim t) \<and>
      timestamp (g_sim s) = timestamp (g_sim t) \<and>
      fps (g_sim s) = fps (g_sim t) \<and>
      isPlaying (g_sim s) = isPlaying (g_sim t))"

text \<open>
  The rectangle of every cell of the grid is the one \<open>SDL_AppInit\<close> computes for its indices.
\<close>

definition gridGeometry :: "MapSystem \<Rightarrow> bool" where
  "gridGeometry m = (\<forall>cell. inGrid cell \<longrightarrow> cellFRect m cell = cellRect (fst cell) (snd cell))"

text \<open>The program is playing at every frame of the run of \<open>cbs\<close> from \<open>s\<close>.\<close>

fun playingAtFrames ::
  "(SDL_FPoint \<Rightarrow> SDL_FRect \<Rightarrow> bool) \<Rightarrow> 64 word \<Rightarrow> Callback list \<Rightarrow> App \<Rightarrow> bool" where
  "playingAtFrames inRect freq [] s = True"
| "playingAtFrames inRect freq (cb # cbs) s =
     ((case cb of AppIterate now \<Rightarrow> isPlaying (g_sim s) | AppEvent event \<Rightarrow> True) \<and>
      (case callback inRect freq cb s of
         (SDL_APP_CONTINUE, s') \<Rightarrow> playingAtFrames inRect freq cbs s'
       | (_, s') \<Rightarrow> True))"

subsection \<open>States to run the program on\<close>

text \<open>
  \<open>startApp\<close> is the state after \<open>SDL_AppInit\<close> with a counter reading of 0,
  \<open>playingApp\<close> that state after the P key, \<open>blinkerMap\<close> the grid with the three cells
  (1,2), (2,2), (3,2) alive, and \<open>stepRequestedApp\<close> the paused program on that grid after
  the period key. \<open>dragLiveMap\<close> and \<open>dragDeadMap\<close> are that grid in the middle of a drag,
  anchored at the live cell (2,2) and at the dead cell (5,5).
\<close>

definition startApp :: App where
  "startApp = snd (SDL_AppInit True True 0 zeroApp)"

definition playingApp :: App where
  "playingApp =
     snd (SDL_AppEvent SDL_PointInRectFloat (SDL_EVENT_KEY_DOWN \<lparr>key = SDLK_P\<rparr>) startApp)"

definition blinkerMap :: MapSystem where
  "blinkerMap =
     setIsAlive (3, 2) True (setIsAlive (2, 2) True (setIsAlive (1, 2) True (g_map startApp)))"

definition blinkerApp :: App where
  "blinkerApp = startApp\<lparr>g_map := blinkerMap\<rparr>"

definition stepRequestedApp :: App where
  "stepRequestedApp =
     snd (SDL_AppEvent SDL_PointInRectFloat (SDL_EVENT_KEY_DOWN \<lparr>key = SDLK_PERIOD\<rparr>) blinkerApp)"

definition dragLiveMap :: MapSystem where
  "dragLiveMap = blinkerMap\<lparr>dragStartCell := Some (2, 2)\<rparr>"

definition dragDeadMap :: MapSystem where
  "dragDeadMap = blinkerMap\<lparr>dragStartCell := Some (5, 5)\<rparr>"

section \<open>Proofs\<close>

subsection \<open>Cells and the staged updates\<close>

lemma cellMap_setIsAlive:
  "cellMap (setIsAlive c v m) p = (if p = c then (cellMap m c)\<lparr>isAlive := v\<rparr> else cellMap m p)"
  by (simp add: setIsAlive_def)

lemma onlyLivenessDiffers_refl: "onlyLivenessDiffers m m"
  by (simp add: onlyLivenessDiffers_def)

lemma onlyLivenessDiffers_trans:
  "onlyLivenessDiffers m m1 \<Longrightarrow> onlyLivenessDiffers m1 m2 \<Longrightarrow> onlyLivenessDiffers m m2"
  by (simp add: onlyLivenessDiffers_def)

lemma onlyLivenessDiffers_setIsAlive: "onlyLivenessDiffers m (setIsAlive c v m)"
  by (simp add: onlyLivenessDiffers_def setIsAlive_def)

lemma onlyLivenessDiffers_fold_setIsAlive:
  "onlyLivenessDiffers m (fold (\<lambda>c. setIsAlive c v) cs m)"
proof (induction cs arbitrary: m)
  case Nil
  show ?case by (simp add: onlyLivenessDiffers_refl)
next
  case (Cons c cs)
  have "onlyLivenessDiffers (setIsAlive c v m) (fold (\<lambda>c. setIsAlive c v) cs (setIsAlive c v m))"
    by (rule Cons.IH)
  with onlyLivenessDiffers_setIsAlive [of m c v] show ?case
    by (auto intro: onlyLivenessDiffers_trans)
qed

lemma isAlive_fold_setIsAlive:
  "isAlive (cellMap (fold (\<lambda>c. setIsAlive c v) cs m) p) =
     (if p \<in> set cs then v else isAlive (cellMap m p))"
  by (induction cs arbitrary: m) (auto simp: cellMap_setIsAlive)

lemma testCell_eq:
  "testCell m j i staged =
     (fst staged @ (if birthDue m (i, j) then [(i, j)] else []),
      snd staged @ (if deathDue m (i, j) then [(i, j)] else []))"
  by (cases staged) (auto simp: testCell_def Let_def birthDue_def deathDue_def)

lemma fold_testCell_row:
  "fold (testCell m j) cols staged =
     (fst staged @ map (\<lambda>i. (i, j)) (filter (\<lambda>i. birthDue m (i, j)) cols),
      snd staged @ map (\<lambda>i. (i, j)) (filter (\<lambda>i. deathDue m (i, j)) cols))"
proof (induction cols arbitrary: staged)
  case Nil
  show ?case by simp
next
  case (Cons i cols)
  have "fold (testCell m j) (i # cols) staged = fold (testCell m j) cols (testCell m j i staged)"
    by simp
  also have "\<dots> =
     (fst (testCell m j i staged) @ map (\<lambda>i. (i, j)) (filter (\<lambda>i. birthDue m (i, j)) cols),
      snd (testCell m j i staged) @ map (\<lambda>i. (i, j)) (filter (\<lambda>i. deathDue m (i, j)) cols))"
    by (rule Cons.IH)
  also have "\<dots> =
     (fst staged @ map (\<lambda>i. (i, j)) (filter (\<lambda>i. birthDue m (i, j)) (i # cols)),
      snd staged @ map (\<lambda>i. (i, j)) (filter (\<lambda>i. deathDue m (i, j)) (i # cols)))"
    by (simp add: testCell_eq)
  finally show ?case .
qed

lemma fold_testCell_rows:
  "fold (\<lambda>j. fold (testCell m j) cols) rows staged =
     (fst staged @ concat (map (\<lambda>j. map (\<lambda>i. (i, j)) (filter (\<lambda>i. birthDue m (i, j)) cols)) rows),
      snd staged @ concat (map (\<lambda>j. map (\<lambda>i. (i, j)) (filter (\<lambda>i. deathDue m (i, j)) cols)) rows))"
  by (induction rows arbitrary: staged) (simp_all add: fold_testCell_row)

lemma set_cellsToBirth:
  "set (fst (testCells m)) = {cell. inGrid cell \<and> birthDue m cell}"
proof (rule set_eqI)
  fix cell :: cell_ptr
  obtain i j where c: "cell = (i, j)" by (cases cell)
  show "cell \<in> set (fst (testCells m)) \<longleftrightarrow> cell \<in> {cell. inGrid cell \<and> birthDue m cell}"
    unfolding c testCells_def fold_testCell_rows inGrid_def
    by (simp add: image_iff)
qed

lemma set_cellsToKill:
  "set (snd (testCells m)) = {cell. inGrid cell \<and> deathDue m cell}"
proof (rule set_eqI)
  fix cell :: cell_ptr
  obtain i j where c: "cell = (i, j)" by (cases cell)
  show "cell \<in> set (snd (testCells m)) \<longleftrightarrow> cell \<in> {cell. inGrid cell \<and> deathDue m cell}"
    unfolding c testCells_def fold_testCell_rows inGrid_def
    by (simp add: image_iff)
qed

text \<open>
  Each of the two local arrays has \<open>GRID_SIZE_X * GRID_SIZE_Y\<close> entries; the test loop never
  stages more cells than that, so the stores \<open>cellsToKill[deathCount]\<close> and
  \<open>cellsToBirth[birthCount]\<close> stay inside the arrays.
\<close>

lemma length_concat_filtered:
  "length (concat (map (\<lambda>j. map (\<lambda>i. (i, j)) (filter (\<lambda>i. P (i, j)) cols)) rows))
     \<le> length rows * length cols"
  by (induction rows) (simp_all add: add_mono)

lemma staged_within_capacity:
  "int (length (fst (testCells m))) \<le> GRID_SIZE_X * GRID_SIZE_Y \<and>
   int (length (snd (testCells m))) \<le> GRID_SIZE_X * GRID_SIZE_Y"
proof -
  have n: "length [0..GRID_SIZE_Y - 1] * length [0..GRID_SIZE_X - 1] = 1600"
    by (simp add: GRID_SIZE_X_def GRID_SIZE_Y_def)
  have "length (fst (testCells m)) \<le> length [0..GRID_SIZE_Y - 1] * length [0..GRID_SIZE_X - 1]"
    unfolding testCells_def fold_testCell_rows
    using length_concat_filtered [of "birthDue m" "[0..GRID_SIZE_X - 1]" "[0..GRID_SIZE_Y - 1]"]
    by simp
  moreover
  have "length (snd (testCells m)) \<le> length [0..GRID_SIZE_Y - 1] * length [0..GRID_SIZE_X - 1]"
    unfolding testCells_def fold_testCell_rows
    using length_concat_filtered [of "deathDue m" "[0..GRID_SIZE_X - 1]" "[0..GRID_SIZE_Y - 1]"]
    by simp
  ultimately show ?thesis
    unfolding n by (simp add: GRID_SIZE_X_def GRID_SIZE_Y_def)
qed

lemma isAlive_simulateConwayIteration:
  "isAlive (cellMap (simulateConwayIteration m) cell) =
     (if inGrid cell
      then spec_nextState (isAlive (cellMap m cell)) (getNumLiveNeighbors m cell)
      else isAlive (cellMap m cell))"
  by (auto simp: simulateConwayIteration_def Let_def isAlive_fold_setIsAlive
      set_cellsToBirth set_cellsToKill spec_nextState_def birthDue_def deathDue_def)

lemma onlyLivenessDiffers_simulateConwayIteration:
  "onlyLivenessDiffers m (simulateConwayIteration m)"
  unfolding simulateConwayIteration_def Let_def
  by (rule onlyLivenessDiffers_trans [OF onlyLivenessDiffers_fold_setIsAlive
        onlyLivenessDiffers_fold_setIsAlive])

subsection \<open>The grid that \<open>SDL_AppInit\<close> builds\<close>

lemma cellMap_fold_initCell:
  "cellMap (fold (initCell j) cols m) (i, j') =
     (if j' = j \<and> i \<in> set cols then cellInit i j else cellMap m (i, j'))"
  by (induction cols arbitrary: m) (auto simp: initCell_def)

lemma cellMap_fold_initCell_rows:
  "cellMap (fold (\<lambda>j. fold (initCell j) cols) rows m) (i, j) =
     (if j \<in> set rows \<and> i \<in> set cols then cellInit i j else cellMap m (i, j))"
  by (induction rows arbitrary: m) (auto simp: cellMap_fold_initCell)

lemma cellMap_initMap:
  "cellMap (initMap m) cell = (if inGrid cell then cellInit (fst cell) (snd cell) else cellMap m cell)"
  by (cases cell) (simp add: initMap_def cellMap_fold_initCell_rows inGrid_def)

lemma wrap_dec:
  "0 \<le> (i::int) \<Longrightarrow> i < n \<Longrightarrow> (if i - 1 < 0 then n - 1 else i - 1) = (i - 1) mod n"
proof (cases "i = 0")
  case True
  assume "0 \<le> i" "i < n"
  with True have "0 < n" by simp
  then have "(- 1) mod n = n - 1" by (rule zmod_minus1)
  with True show ?thesis by simp
next
  case False
  assume "0 \<le> i" "i < n"
  with False have "0 \<le> i - 1" "i - 1 < n" by simp_all
  then have "(i - 1) mod n = i - 1" by (rule mod_pos_pos_trivial)
  with False \<open>0 \<le> i\<close> show ?thesis by simp
qed

lemma wrap_inc:
  "0 \<le> (i::int) \<Longrightarrow> i < n \<Longrightarrow> (if i + 1 \<ge> n then 0 else i + 1) = (i + 1) mod n"
proof (cases "i + 1 = n")
  case True
  then show ?thesis by simp
next
  case False
  assume "0 \<le> i" "i < n"
  with False have "0 \<le> i + 1" "i + 1 < n" by simp_all
  then have "(i + 1) mod n = i + 1" by (rule mod_pos_pos_trivial)
  with False \<open>i < n\<close> show ?thesis by simp
qed

lemma neighbors_cellInit:
  assumes "inGrid (i, j)"
  shows "neighbors (cellInit i j) = spec_torusNeighbors (i, j)"
proof -
  from assms have i: "0 \<le> i" "i < GRID_SIZE_X" and j: "0 \<le> j" "j < GRID_SIZE_Y"
    by (simp_all add: inGrid_def)
  show ?thesis
    unfolding cellInit_def spec_torusNeighbors_def Let_def
    by (simp only: wrap_dec [OF i] wrap_inc [OF i] wrap_dec [OF j] wrap_inc [OF j]
        Cell.simps fst_conv snd_conv)
qed

lemma toroidalTopology_initMap: "toroidalTopology (initMap m)"
  by (auto simp: toroidalTopology_def cellMap_initMap neighbors_cellInit)

lemma length_spec_torusNeighbors: "length (spec_torusNeighbors cell) = NUM_CELL_NEIGHBORS"
  by (simp add: spec_torusNeighbors_def NUM_CELL_NEIGHBORS_def Let_def)

lemma distinct_neighbors_cellInit:
  "inGrid (i, j) \<Longrightarrow> distinct (neighbors (cellInit i j))"
  by (simp add: cellInit_def inGrid_def GRID_SIZE_X_def GRID_SIZE_Y_def Let_def)

lemma inGrid_neighbors_cellInit:
  "inGrid (i, j) \<Longrightarrow> other \<in> set (neighbors (cellInit i j)) \<Longrightarrow> inGrid other"
  by (auto simp: cellInit_def inGrid_def GRID_SIZE_X_def GRID_SIZE_Y_def Let_def split: if_splits)

lemma dec_inc_swap:
  "0 \<le> (i::int) \<Longrightarrow> i < n \<Longrightarrow> 0 \<le> a \<Longrightarrow> a < n \<Longrightarrow>
   (a = (if i - 1 < 0 then n - 1 else i - 1)) = (i = (if a + 1 \<ge> n then 0 else a + 1))"
  by auto

lemma inc_dec_swap:
  "0 \<le> (i::int) \<Longrightarrow> i < n \<Longrightarrow> 0 \<le> a \<Longrightarrow> a < n \<Longrightarrow>
   (a = (if i + 1 \<ge> n then 0 else i + 1)) = (i = (if a - 1 < 0 then n - 1 else a - 1))"
  by auto

lemma neighbors_cellInit_sym:
  assumes "inGrid (i, j)" and "inGrid (a, b)"
  shows "(a, b) \<in> set (neighbors (cellInit i j)) \<longleftrightarrow> (i, j) \<in> set (neighbors (cellInit a b))"
proof -
  from assms have i: "0 \<le> i" "i < GRID_SIZE_X" and j: "0 \<le> j" "j < GRID_SIZE_Y"
    and a: "0 \<le> a" "a < GRID_SIZE_X" and b: "0 \<le> b" "b < GRID_SIZE_Y"
    by (simp_all add: inGrid_def)
  define L where "L = (if i - 1 < 0 then GRID_SIZE_X - 1 else i - 1)"
  define R where "R = (if i + 1 \<ge> GRID_SIZE_X then 0 else i + 1)"
  define T where "T = (if j - 1 < 0 then GRID_SIZE_Y - 1 else j - 1)"
  define B where "B = (if j + 1 \<ge> GRID_SIZE_Y then 0 else j + 1)"
  define L' where "L' = (if a - 1 < 0 then GRID_SIZE_X - 1 else a - 1)"
  define R' where "R' = (if a + 1 \<ge> GRID_SIZE_X then 0 else a + 1)"
  define T' where "T' = (if b - 1 < 0 then GRID_SIZE_Y - 1 else b - 1)"
  define B' where "B' = (if b + 1 \<ge> GRID_SIZE_Y then 0 else b + 1)"
  have fwd: "(a, b) \<in> set (neighbors (cellInit i j)) \<longleftrightarrow>
      (a = L \<and> b = j) \<or> (a = L \<and> b = T) \<or> (a = L \<and> b = B) \<or>
      (a = R \<and> b = j) \<or> (a = R \<and> b = T) \<or> (a = R \<and> b = B) \<or>
      (a = i \<and> b = T) \<or> (a = i \<and> b = B)"
    unfolding cellInit_def Let_def L_def R_def T_def B_def by simp
  have bwd: "(i, j) \<in> set (neighbors (cellInit a b)) \<longleftrightarrow>
      (i = L' \<and> j = b) \<or> (i = L' \<and> j = T') \<or> (i = L' \<and> j = B') \<or>
      (i = R' \<and> j = b) \<or> (i = R' \<and> j = T') \<or> (i = R' \<and> j = B') \<or>
      (i = a \<and> j = T') \<or> (i = a \<and> j = B')"
    unfolding cellInit_def Let_def L'_def R'_def T'_def B'_def by simp
  have sw: "a = L \<longleftrightarrow> i = R'" "a = R \<longleftrightarrow> i = L'" "b = T \<longleftrightarrow> j = B'" "b = B \<longleftrightarrow> j = T'"
    unfolding L_def R_def T_def B_def L'_def R'_def T'_def B'_def
    using dec_inc_swap [OF i a] inc_dec_swap [OF i a] dec_inc_swap [OF j b] inc_dec_swap [OF j b]
    by blast+
  show ?thesis unfolding fwd bwd sw by blast
qed

subsection \<open>Finding and editing cells\<close>

lemma fold_nth_upt: "fold (\<lambda>i. f (xs ! i)) [0..<length xs] a = fold f xs a"
proof -
  have "fold (\<lambda>i. f (xs ! i)) [0..<length xs] a = fold f (map (nth xs) [0..<length xs]) a"
    by (simp add: fold_map comp_def)
  then show ?thesis by (simp add: map_nth)
qed

lemma fold_count_alive:
  "fold (\<lambda>q n. if isAlive (cellMap m q) then n + 1 else n) qs (k::int) =
     k + int (length (filter (\<lambda>q. isAlive (cellMap m q)) qs))"
  by (induction qs arbitrary: k) simp_all

lemma getNumLiveNeighbors_count:
  assumes "length (neighbors (cellMap m cell)) = NUM_CELL_NEIGHBORS"
  shows "getNumLiveNeighbors m cell =
           int (length (filter (\<lambda>q. isAlive (cellMap m q)) (neighbors (cellMap m cell))))"
proof -
  have "getNumLiveNeighbors m cell =
          fold (\<lambda>i. (\<lambda>q n. if isAlive (cellMap m q) then n + 1 else n) (neighbors (cellMap m cell) ! i))
            [0..<length (neighbors (cellMap m cell))] 0"
    by (simp add: getNumLiveNeighbors_def assms)
  also have "\<dots> = fold (\<lambda>q n. if isAlive (cellMap m q) then n + 1 else n) (neighbors (cellMap m cell)) 0"
    by (rule fold_nth_upt)
  finally show ?thesis by (simp add: fold_count_alive)
qed

lemma cellFRect_onlyLivenessDiffers:
  "onlyLivenessDiffers m m' \<Longrightarrow> cellFRect m' cell = cellFRect m cell"
  by (cases cell) (simp add: onlyLivenessDiffers_def cellFRect_def)

lemma scanRow_onlyLivenessDiffers:
  "onlyLivenessDiffers m m' \<Longrightarrow> scanRow inRect m' point j cols = scanRow inRect m point j cols"
  by (induction cols) (simp_all add: cellFRect_onlyLivenessDiffers)

lemma scanRows_onlyLivenessDiffers:
  "onlyLivenessDiffers m m' \<Longrightarrow> scanRows inRect m' point rows = scanRows inRect m point rows"
  by (induction rows) (simp_all add: scanRow_onlyLivenessDiffers split: option.splits)

lemma getCellUnderPoint_onlyLivenessDiffers:
  "onlyLivenessDiffers m m' \<Longrightarrow> getCellUnderPoint inRect m' x y = getCellUnderPoint inRect m x y"
  by (simp add: getCellUnderPoint_def scanRows_onlyLivenessDiffers)

lemma scanRow_None:
  "scanRow inRect m point j cols = None \<longleftrightarrow> (\<forall>i\<in>set cols. \<not> inRect point (cellFRect m (i, j)))"
  by (induction cols) simp_all

lemma scanRow_Some:
  "scanRow inRect m point j cols = Some cell \<Longrightarrow>
   snd cell = j \<and> fst cell \<in> set cols \<and> inRect point (cellFRect m cell)"
  by (induction cols) (auto split: if_splits)

lemma scanRows_None:
  "scanRows inRect m point rows = None \<longleftrightarrow>
     (\<forall>j\<in>set rows. \<forall>i\<in>{0..GRID_SIZE_X - 1}. \<not> inRect point (cellFRect m (i, j)))"
proof (induction rows)
  case Nil
  show ?case by simp
next
  case (Cons j rows)
  show ?case
  proof (cases "scanRow inRect m point j [0..GRID_SIZE_X - 1]")
    case None
    with Cons.IH scanRow_None [of inRect m point j "[0..GRID_SIZE_X - 1]"] show ?thesis
      by simp
  next
    case (Some c)
    from scanRow_Some [OF Some] have "\<exists>i\<in>{0..GRID_SIZE_X - 1}. inRect point (cellFRect m (i, j))"
      by (cases c) auto
    with Some show ?thesis by auto
  qed
qed

lemma scanRows_Some:
  "scanRows inRect m point rows = Some cell \<Longrightarrow>
   snd cell \<in> set rows \<and> fst cell \<in> {0..GRID_SIZE_X - 1} \<and> inRect point (cellFRect m cell)"
proof (induction rows)
  case Nil
  then show ?case by simp
next
  case (Cons j rows)
  show ?case
  proof (cases "scanRow inRect m point j [0..GRID_SIZE_X - 1]")
    case None
    with Cons show ?thesis by simp
  next
    case (Some c)
    with Cons.prems have "c = cell" by simp
    with Some scanRow_Some [of inRect m point j "[0..GRID_SIZE_X - 1]" cell] show ?thesis by simp
  qed
qed

lemma getCellUnderPoint_None:
  "getCellUnderPoint inRect m x y = None \<longleftrightarrow>
     (\<forall>cell. inGrid cell \<longrightarrow> \<not> inRect \<lparr>point_x = x, point_y = y\<rparr> (cellFRect m cell))"
  by (auto simp: getCellUnderPoint_def scanRows_None inGrid_def)

lemma getCellUnderPoint_Some:
  "getCellUnderPoint inRect m x y = Some cell \<Longrightarrow>
   inGrid cell \<and> inRect \<lparr>point_x = x, point_y = y\<rparr> (cellFRect m cell)"
  using scanRows_Some [of inRect m "\<lparr>point_x = x, point_y = y\<rparr>" "[0..GRID_SIZE_Y - 1]" cell]
  by (simp add: getCellUnderPoint_def inGrid_def)

lemma getCellUnderPoint_unique:
  assumes "inGrid cell" and "inRect \<lparr>point_x = x, point_y = y\<rparr> (cellFRect m cell)"
    and "\<forall>other. inGrid other \<and> inRect \<lparr>point_x = x, point_y = y\<rparr> (cellFRect m other) \<longrightarrow> other = cell"
  shows "getCellUnderPoint inRect m x y = Some cell"
proof (cases "getCellUnderPoint inRect m x y")
  case None
  then have "\<not> inRect \<lparr>point_x = x, point_y = y\<rparr> (cellFRect m cell)"
    using assms(1) unfolding getCellUnderPoint_None by blast
  with assms(2) show ?thesis by simp
next
  case (Some c)
  from getCellUnderPoint_Some [OF Some] assms(3) have "c = cell" by blast
  with Some show ?thesis by simp
qed

lemma onlyLivenessDiffers_setCellUnderPoint:
  "onlyLivenessDiffers m (setCellUnderPoint inRect x y action m)"
  by (simp add: setCellUnderPoint_def onlyLivenessDiffers_refl onlyLivenessDiffers_setIsAlive
      split: option.splits CellSetAction.splits)

lemma onlyLivenessDiffers_handleDragStart:
  "onlyLivenessDiffers m (handleDragStart inRect b m)"
  by (simp add: handleDragStart_def onlyLivenessDiffers_def)

lemma onlyLivenessDiffers_handleDragMotion:
  "onlyLivenessDiffers m (handleDragMotion inRect motion m)"
  by (simp add: handleDragMotion_def onlyLivenessDiffers_refl onlyLivenessDiffers_setCellUnderPoint
      split: option.splits)

lemma onlyLivenessDiffers_fold:
  assumes "\<And>x m. onlyLivenessDiffers m (f x m)"
  shows "onlyLivenessDiffers m (fold f xs m)"
proof (induction xs arbitrary: m)
  case Nil
  show ?case by (simp add: onlyLivenessDiffers_refl)
next
  case (Cons x xs)
  from assms [of m x] Cons.IH [of "f x m"] show ?case
    by (auto intro: onlyLivenessDiffers_trans)
qed

lemma onlyLivenessDiffers_handleSimulationReset:
  "onlyLivenessDiffers m (handleSimulationReset m)"
  unfolding handleSimulationReset_def
  by (intro onlyLivenessDiffers_fold onlyLivenessDiffers_setIsAlive)

lemma isAlive_fold_reset_row:
  "isAlive (cellMap (fold (\<lambda>i. setIsAlive (i, j) False) cols m) cell) =
     (if snd cell = j \<and> fst cell \<in> set cols then False else isAlive (cellMap m cell))"
  by (induction cols arbitrary: m) (auto simp: cellMap_setIsAlive)

lemma isAlive_fold_reset_rows:
  "isAlive (cellMap (fold (\<lambda>j. fold (\<lambda>i. setIsAlive (i, j) False) cols) rows m) cell) =
     (if snd cell \<in> set rows \<and> fst cell \<in> set cols then False else isAlive (cellMap m cell))"
  by (induction rows arbitrary: m) (auto simp: isAlive_fold_reset_row)

lemma isAlive_handleSimulationReset:
  "isAlive (cellMap (handleSimulationReset m) cell) =
     (if inGrid cell then False else isAlive (cellMap m cell))"
  by (auto simp: handleSimulationReset_def isAlive_fold_reset_rows inGrid_def)

lemma dragStartCell_setIsAlive: "dragStartCell (setIsAlive c v m) = dragStartCell m"
  by (simp add: setIsAlive_def)

lemma dragStartCell_fold:
  assumes "\<And>x m. dragStartCell (f x m) = dragStartCell m"
  shows "dragStartCell (fold f xs m) = dragStartCell m"
  by (induction xs arbitrary: m) (simp_all add: assms)

lemma dragStartCell_handleSimulationReset:
  "dragStartCell (handleSimulationReset m) = dragStartCell m"
  by (simp add: handleSimulationReset_def dragStartCell_fold dragStartCell_setIsAlive)

lemma dragStartCell_simulateConwayIteration:
  "dragStartCell (simulateConwayIteration m) = dragStartCell m"
  by (simp add: simulateConwayIteration_def Let_def dragStartCell_fold dragStartCell_setIsAlive)

lemma dragStartCell_setCellUnderPoint:
  "dragStartCell (setCellUnderPoint inRect x y action m) = dragStartCell m"
  by (simp add: setCellUnderPoint_def dragStartCell_setIsAlive
      split: option.splits CellSetAction.splits)

subsection \<open>What the callbacks keep\<close>

lemma g_map_tickSimulationTimer: "g_map (tickSimulationTimer now freq s) = g_map s"
  by (simp add: tickSimulationTimer_def Let_def)

lemma onlyLivenessDiffers_SDL_AppEvent:
  "onlyLivenessDiffers (g_map s) (g_map (snd (SDL_AppEvent inRect event s)))"
proof (cases event)
  case (SDL_EVENT_MOUSE_BUTTON_DOWN b)
  have "onlyLivenessDiffers (g_map s)
          (handleDragStart inRect b
             (setCellUnderPoint inRect (button_x b) (button_y b) CELL_TOGGLE (g_map s)))"
    by (rule onlyLivenessDiffers_trans
        [OF onlyLivenessDiffers_setCellUnderPoint onlyLivenessDiffers_handleDragStart])
  with SDL_EVENT_MOUSE_BUTTON_DOWN show ?thesis
    by (simp add: SDL_AppEvent_def Let_def onlyLivenessDiffers_refl)
next
  case (SDL_EVENT_MOUSE_MOTION motion)
  then show ?thesis
    by (simp add: SDL_AppEvent_def Let_def onlyLivenessDiffers_refl
        onlyLivenessDiffers_handleDragMotion)
next
  case (SDL_EVENT_KEY_DOWN k)
  then show ?thesis
    by (simp add: SDL_AppEvent_def onlyLivenessDiffers_refl
        onlyLivenessDiffers_handleSimulationReset)
qed (simp_all add: SDL_AppEvent_def onlyLivenessDiffers_refl)

lemma onlyLivenessDiffers_SDL_AppIterate:
  "onlyLivenessDiffers (g_map s) (g_map (snd (SDL_AppIterate now freq s)))"
  by (simp add: SDL_AppIterate_def Let_def g_map_tickSimulationTimer onlyLivenessDiffers_refl
      onlyLivenessDiffers_simulateConwayIteration)

lemma onlyLivenessDiffers_callback:
  "onlyLivenessDiffers (g_map s) (g_map (snd (callback inRect freq cb s)))"
  by (cases cb)
    (simp_all add: callback_def onlyLivenessDiffers_SDL_AppEvent onlyLivenessDiffers_SDL_AppIterate)

lemma onlyLivenessDiffers_runCallbacks:
  "onlyLivenessDiffers (g_map s) (g_map (runCallbacks inRect freq cbs s))"
proof (induction cbs arbitrary: s)
  case Nil
  show ?case by (simp add: onlyLivenessDiffers_refl)
next
  case (Cons cb cbs)
  obtain r s' where step: "callback inRect freq cb s = (r, s')"
    by (cases "callback inRect freq cb s")
  from onlyLivenessDiffers_callback [of s inRect freq cb] step
  have one: "onlyLivenessDiffers (g_map s) (g_map s')" by simp
  show ?case
  proof (cases r)
    case SDL_APP_CONTINUE
    with step one Cons.IH [of s'] show ?thesis
      by (auto intro: onlyLivenessDiffers_trans)
  qed (use step one in simp_all)
qed

lemma toroidalTopology_onlyLivenessDiffers:
  "onlyLivenessDiffers m m' \<Longrightarrow> toroidalTopology m \<Longrightarrow> toroidalTopology m'"
  by (simp add: onlyLivenessDiffers_def toroidalTopology_def)

lemma toroidalTopology_SDL_AppInit:
  "SDL_AppInit sdl_init_ok window_ok counter s0 = (SDL_APP_CONTINUE, s1) \<Longrightarrow>
   toroidalTopology (g_map s1)"
  by (auto simp: SDL_AppInit_def toroidalTopology_initMap split: if_splits)

lemma spec_torusNeighbors_cellInit:
  "inGrid cell \<Longrightarrow> spec_torusNeighbors cell = neighbors (cellInit (fst cell) (snd cell))"
  by (cases cell) (simp add: neighbors_cellInit)

lemma distinct_spec_torusNeighbors: "inGrid cell \<Longrightarrow> distinct (spec_torusNeighbors cell)"
  by (cases cell) (simp add: spec_torusNeighbors_cellInit distinct_neighbors_cellInit)

lemma inGrid_spec_torusNeighbors:
  "inGrid cell \<Longrightarrow> other \<in> set (spec_torusNeighbors cell) \<Longrightarrow> inGrid other"
  by (cases cell) (auto simp: spec_torusNeighbors_cellInit dest: inGrid_neighbors_cellInit)

lemma spec_torusNeighbors_sym:
  "inGrid cell \<Longrightarrow> inGrid other \<Longrightarrow>
   other \<in> set (spec_torusNeighbors cell) \<longleftrightarrow> cell \<in> set (spec_torusNeighbors other)"
  using neighbors_cellInit_sym [of "fst cell" "snd cell" "fst other" "snd other"]
  by (simp add: spec_torusNeighbors_cellInit)

text \<open>
  Claim C1. One call of \<open>simulateConwayIteration\<close> gives every cell of the grid the
  Conway-rule next state computed from the grid as it was before the call: the neighbour
  count is \<open>getNumLiveNeighbors\<close> on the old grid \<open>m\<close>, a live cell with fewer than 2 or more
  than 3 live neighbours is dead afterwards, a dead cell with exactly 3 is alive, every
  other cell keeps its state. With the neighbour lists of \<open>SDL_AppInit\<close> that count is the
  number of live cells in the toroidal Moore neighbourhood on the old grid. The staged
  lists hold exactly the cells of the grid that the rule changes on the old grid, and the
  call changes nothing but \<open>isAlive\<close> fields.
\<close>
theorem simulateConwayIteration_two_phase:
  assumes "inGrid cell"
  shows "(let n = getNumLiveNeighbors m cell;
              alive = isAlive (cellMap m cell);
              alive' = isAlive (cellMap (simulateConwayIteration m) cell)
          in alive' = spec_nextState alive n \<and>
             (alive \<and> (n < 2 \<or> n > 3) \<longrightarrow> \<not> alive') \<and>
             (\<not> alive \<and> n = 3 \<longrightarrow> alive') \<and>
             (\<not> (alive \<and> (n < 2 \<or> n > 3)) \<and> \<not> (\<not> alive \<and> n = 3) \<longrightarrow> alive' = alive)) \<and>
         (toroidalTopology m \<longrightarrow>
            getNumLiveNeighbors m cell =
              int (length (filter (\<lambda>c. isAlive (cellMap m c)) (spec_torusNeighbors cell)))) \<and>
         set (fst (testCells m)) = {c. inGrid c \<and> birthDue m c} \<and>
         set (snd (testCells m)) = {c. inGrid c \<and> deathDue m c} \<and>
         onlyLivenessDiffers m (simulateConwayIteration m) \<and>
         dragStartCell (simulateConwayIteration m) = dragStartCell m"
proof -
  have rule: "isAlive (cellMap (simulateConwayIteration m) cell) =
          spec_nextState (isAlive (cellMap m cell)) (getNumLiveNeighbors m cell)"
    using assms by (simp add: isAlive_simulateConwayIteration)
  have count: "getNumLiveNeighbors m cell =
      int (length (filter (\<lambda>c. isAlive (cellMap m c)) (spec_torusNeighbors cell)))"
    if "toroidalTopology m"
  proof -
    from that assms have "neighbors (cellMap m cell) = spec_torusNeighbors cell"
      unfolding toroidalTopology_def by blast
    then show ?thesis
      by (simp add: getNumLiveNeighbors_count length_spec_torusNeighbors)
  qed
  from rule count show ?thesis
    by (auto simp: Let_def spec_nextState_def set_cellsToBirth set_cellsToKill
        onlyLivenessDiffers_simulateConwayIteration dragStartCell_simulateConwayIteration)
qed

text \<open>
  Claim C7. After \<open>SDL_AppInit\<close> has succeeded, and after any sequence of events and frames
  that follows, every cell of the grid has as neighbour list its toroidal Moore
  neighbourhood \<open>spec_torusNeighbors\<close>: 8 entries, pairwise distinct, all of them cells of
  the grid, and a cell is among the neighbours of another exactly if that other is among
  its own.
\<close>
theorem neighbor_topology:
  assumes init: "SDL_AppInit sdl_init_ok window_ok counter s0 = (SDL_APP_CONTINUE, s1)"
    and cell: "inGrid cell"
  shows "(let m = g_map (runCallbacks inRect freq cbs s1)
          in neighbors (cellMap m cell) = spec_torusNeighbors cell \<and>
             length (neighbors (cellMap m cell)) = NUM_CELL_NEIGHBORS \<and>
             distinct (neighbors (cellMap m cell)) \<and>
             (\<forall>other \<in> set (neighbors (cellMap m cell)). inGrid other) \<and>
             (\<forall>other. inGrid other \<longrightarrow>
                (other \<in> set (neighbors (cellMap m cell)) \<longleftrightarrow>
                 cell \<in> set (neighbors (cellMap m other)))))"
proof -
  have "toroidalTopology (g_map (runCallbacks inRect freq cbs s1))"
    by (rule toroidalTopology_onlyLivenessDiffers
        [OF onlyLivenessDiffers_runCallbacks toroidalTopology_SDL_AppInit [OF init]])
  then have nb: "\<And>c. inGrid c \<Longrightarrow>
      neighbors (cellMap (g_map (runCallbacks inRect freq cbs s1)) c) = spec_torusNeighbors c"
    unfolding toroidalTopology_def by blast
  show ?thesis
    unfolding Let_def
    using cell
    by (auto simp: nb length_spec_torusNeighbors distinct_spec_torusNeighbors
        spec_torusNeighbors_sym dest: inGrid_spec_torusNeighbors)
qed

subsection \<open>Pointer and key events\<close>

lemma cellMap_setCellUnderPoint:
  "cellMap (setCellUnderPoint inRect x y action m) =
     (case getCellUnderPoint inRect m x y of
        None \<Rightarrow> cellMap m
      | Some cell \<Rightarrow>
          (cellMap m)(cell := (cellMap m cell)
             \<lparr>isAlive := (case action of CELL_SET_ALIVE \<Rightarrow> True | CELL_SET_DEAD \<Rightarrow> False
                          | CELL_TOGGLE \<Rightarrow> \<not> isAlive (cellMap m cell))\<rparr>))"
  by (simp add: setCellUnderPoint_def setIsAlive_def split: option.splits CellSetAction.splits)

text \<open>
  Claim C5. A left-button pointer-down event sets \<open>isPlaying\<close> to false, toggles the cell
  that \<open>getCellUnderPoint\<close> finds under the pointer (no cell changes when it finds none),
  and sets the drag anchor to that same cell, whose liveness is then the toggled one, so
  that the drag motion that follows paints with the state after the toggle. The cell found
  is a cell of the grid whose rectangle holds the pointer; none is found exactly when no
  rectangle of the grid holds it, and a cell that alone holds the pointer is the one found.
\<close>
theorem left_button_down:
  assumes "button b = SDL_BUTTON_LEFT"
  shows "(let s' = snd (SDL_AppEvent inRect (SDL_EVENT_MOUSE_BUTTON_DOWN b) s);
              point = \<lparr>point_x = button_x b, point_y = button_y b\<rparr>;
              under = getCellUnderPoint inRect (g_map s) (button_x b) (button_y b)
          in \<not> isPlaying (g_sim s') \<and>
             dragStartCell (g_map s') = under \<and>
             (case under of
                None \<Rightarrow> cellMap (g_map s') = cellMap (g_map s)
              | Some cell \<Rightarrow>
                  inGrid cell \<and> inRect point (cellFRect (g_map s) cell) \<and>
                  cellMap (g_map s') =
                    (cellMap (g_map s))
                      (cell := (cellMap (g_map s) cell)\<lparr>isAlive := \<not> isAlive (cellMap (g_map s) cell)\<rparr>) \<and>
                  isAlive (cellMap (g_map s') cell) = (\<not> isAlive (cellMap (g_map s) cell)) \<and>
                  (\<forall>motion.
                     handleDragMotion inRect motion (g_map s') =
                       setCellUnderPoint inRect (motion_x motion) (motion_y motion)
                         (if \<not> isAlive (cellMap (g_map s) cell) then CELL_SET_ALIVE else CELL_SET_DEAD)
                         (g_map s'))) \<and>
             (under = None \<longleftrightarrow>
                (\<forall>cell. inGrid cell \<longrightarrow> \<not> inRect point (cellFRect (g_map s) cell))) \<and>
             (\<forall>cell. inGrid cell \<and> inRect point (cellFRect (g_map s) cell) \<and>
                     (\<forall>other. inGrid other \<and> inRect point (cellFRect (g_map s) other) \<longrightarrow> other = cell)
                     \<longrightarrow> under = Some cell))"
proof -
  define m where "m = g_map s"
  define x where "x = button_x b"
  define y where "y = button_y b"
  define m1 where "m1 = setCellUnderPoint inRect x y CELL_TOGGLE m"
  define s' where "s' = snd (SDL_AppEvent inRect (SDL_EVENT_MOUSE_BUTTON_DOWN b) s)"
  have same: "getCellUnderPoint inRect m1 x y = getCellUnderPoint inRect m x y"
    unfolding m1_def
    by (rule getCellUnderPoint_onlyLivenessDiffers [OF onlyLivenessDiffers_setCellUnderPoint])
  have map': "g_map s' = m1\<lparr>dragStartCell := getCellUnderPoint inRect m x y\<rparr>"
    using assms same
    by (simp add: s'_def SDL_AppEvent_def Let_def handleDragStart_def m1_def m_def x_def y_def)
  have sim': "\<not> isPlaying (g_sim s')"
    using assms by (simp add: s'_def SDL_AppEvent_def Let_def)
  have cells: "cellMap (g_map s') = cellMap m1" by (simp add: map')
  have anchor: "dragStartCell (g_map s') = getCellUnderPoint inRect m x y" by (simp add: map')
  have main: "case getCellUnderPoint inRect m x y of
                None \<Rightarrow> cellMap (g_map s') = cellMap m
              | Some cell \<Rightarrow>
                  inGrid cell \<and> inRect \<lparr>point_x = x, point_y = y\<rparr> (cellFRect m cell) \<and>
                  cellMap (g_map s') =
                    (cellMap m)(cell := (cellMap m cell)\<lparr>isAlive := \<not> isAlive (cellMap m cell)\<rparr>) \<and>
                  isAlive (cellMap (g_map s') cell) = (\<not> isAlive (cellMap m cell)) \<and>
                  (\<forall>motion.
                     handleDragMotion inRect motion (g_map s') =
                       setCellUnderPoint inRect (motion_x motion) (motion_y motion)
                         (if \<not> isAlive (cellMap m cell) then CELL_SET_ALIVE else CELL_SET_DEAD)
                         (g_map s'))"
  proof (cases "getCellUnderPoint inRect m x y")
    case None
    then show ?thesis by (simp add: cells m1_def cellMap_setCellUnderPoint)
  next
    case (Some cell)
    have upd: "cellMap (g_map s') =
        (cellMap m)(cell := (cellMap m cell)\<lparr>isAlive := \<not> isAlive (cellMap m cell)\<rparr>)"
      using Some by (simp add: cells m1_def cellMap_setCellUnderPoint)
    have "\<And>motion. handleDragMotion inRect motion (g_map s') =
            setCellUnderPoint inRect (motion_x motion) (motion_y motion)
              (if \<not> isAlive (cellMap m cell) then CELL_SET_ALIVE else CELL_SET_DEAD) (g_map s')"
      using Some by (simp add: handleDragMotion_def anchor upd)
    with Some getCellUnderPoint_Some [OF Some] upd show ?thesis by simp
  qed
  have uniq: "\<forall>cell. inGrid cell \<and> inRect \<lparr>point_x = x, point_y = y\<rparr> (cellFRect m cell) \<and>
       (\<forall>other. inGrid other \<and> inRect \<lparr>point_x = x, point_y = y\<rparr> (cellFRect m other) \<longrightarrow> other = cell)
       \<longrightarrow> getCellUnderPoint inRect m x y = Some cell"
    using getCellUnderPoint_unique [of _ inRect x y m] by blast
  show ?thesis
    unfolding Let_def
    using sim' anchor main uniq getCellUnderPoint_None [of inRect m x y]
    unfolding s'_def m_def x_def y_def by blast
qed

text \<open>
  Claim C9. A mouse-motion event whose button mask is exactly \<open>SDL_BUTTON_LMASK\<close> sets
  \<open>isPlaying\<close> to false, also when no drag anchor is set or no cell lies under the pointer
  (the grid is then left as it was).
\<close>
theorem left_drag_motion_pauses:
  assumes "state motion = SDL_BUTTON_LMASK"
  shows "(let s' = snd (SDL_AppEvent inRect (SDL_EVENT_MOUSE_MOTION motion) s)
          in \<not> isPlaying (g_sim s') \<and>
             g_map s' = handleDragMotion inRect motion (g_map s) \<and>
             (dragStartCell (g_map s) = None \<longrightarrow> g_map s' = g_map s) \<and>
             (getCellUnderPoint inRect (g_map s) (motion_x motion) (motion_y motion) = None
                \<longrightarrow> g_map s' = g_map s))"
  using assms
  by (simp add: SDL_AppEvent_def Let_def handleDragMotion_def setCellUnderPoint_def
      split: option.splits)

text \<open>
  Claim C8. In a grid with the neighbour lists of \<open>SDL_AppInit\<close>, the reset key leaves
  every cell of the grid dead and every live-neighbour count 0, and changes neither
  \<open>isPlaying\<close> nor anything else of \<open>g_sim\<close>.
\<close>
theorem reset_clears_grid:
  assumes "toroidalTopology (g_map s)" and "key k = SDLK_R"
  shows "(let s' = snd (SDL_AppEvent inRect (SDL_EVENT_KEY_DOWN k) s)
          in (\<forall>cell. inGrid cell \<longrightarrow>
                \<not> isAlive (cellMap (g_map s') cell) \<and> getNumLiveNeighbors (g_map s') cell = 0) \<and>
             isPlaying (g_sim s') = isPlaying (g_sim s) \<and>
             g_sim s' = g_sim s \<and>
             onlyLivenessDiffers (g_map s) (g_map s'))"
proof -
  define m' where "m' = handleSimulationReset (g_map s)"
  have ev: "snd (SDL_AppEvent inRect (SDL_EVENT_KEY_DOWN k) s) = s\<lparr>g_map := m'\<rparr>"
    using assms(2) by (simp add: SDL_AppEvent_def m'_def SDLK_R_def SDLK_P_def SDLK_PERIOD_def)
  have old: "onlyLivenessDiffers (g_map s) m'"
    unfolding m'_def by (rule onlyLivenessDiffers_handleSimulationReset)
  then have topo: "toroidalTopology m'"
    using assms(1) by (rule toroidalTopology_onlyLivenessDiffers)
  have dead: "\<not> isAlive (cellMap m' cell)" if "inGrid cell" for cell
    using that by (simp add: m'_def isAlive_handleSimulationReset)
  have count: "getNumLiveNeighbors m' cell = 0" if c: "inGrid cell" for cell
  proof -
    from topo c have nb: "neighbors (cellMap m' cell) = spec_torusNeighbors cell"
      unfolding toroidalTopology_def by blast
    have "filter (\<lambda>q. isAlive (cellMap m' q)) (spec_torusNeighbors cell) = []"
      using inGrid_spec_torusNeighbors [OF c] dead by (auto simp: filter_empty_conv)
    then show ?thesis
      by (simp add: getNumLiveNeighbors_count nb length_spec_torusNeighbors)
  qed
  show ?thesis
    unfolding Let_def ev using dead count old by simp
qed

subsection \<open>Double arithmetic\<close>

lemma powi2_less_iff: "(2::rat) powi a < 2 powi b \<longleftrightarrow> a < b"
proof
  assume l: "(2::rat) powi a < 2 powi b"
  show "a < b"
  proof (rule ccontr)
    assume "\<not> a < b"
    then have "b \<le> a" by simp
    then have "(2::rat) powi b \<le> 2 powi a" by (rule power_int_increasing) simp
    with l show False by simp
  qed
next
  assume "a < b"
  then show "(2::rat) powi a < 2 powi b" by (rule power_int_strict_increasing) simp
qed

lemma powi2_le_iff: "(2::rat) powi a \<le> 2 powi b \<longleftrightarrow> a \<le> b"
  using powi2_less_iff [of b a] by (simp add: not_less [symmetric])

lemma bitlen_powi_bounds:
  assumes "0 < p"
  shows "(2::rat) powi (bitlen p - 1) \<le> of_int p" and "(of_int p :: rat) < 2 powi bitlen p"
proof -
  from assms have b: "1 \<le> bitlen p" by (auto simp: bitlen_alt_def)
  from bitlen_bounds [OF assms] have 1: "2 ^ nat (bitlen p - 1) \<le> p" and 2: "p < 2 ^ nat (bitlen p)"
    by simp_all
  from 1 have "(of_int (2 ^ nat (bitlen p - 1)) :: rat) \<le> of_int p" by (simp only: of_int_le_iff)
  then show "(2::rat) powi (bitlen p - 1) \<le> of_int p"
    using b by (simp add: power_int_nonneg_exp)
  from 2 have "(of_int p :: rat) < of_int (2 ^ nat (bitlen p))" by (simp only: of_int_less_iff)
  then show "(of_int p :: rat) < 2 powi bitlen p"
    using b by (simp add: power_int_nonneg_exp)
qed

lemma expo_bounds:
  assumes "x \<noteq> 0"
  shows "2 powi expo x \<le> \<bar>x\<bar>" and "\<bar>x\<bar> < 2 powi (expo x + 1)"
proof -
  obtain p q where pq: "quotient_of \<bar>x\<bar> = (p, q)" by (cases "quotient_of \<bar>x\<bar>")
  then have q: "0 < q" by (rule quotient_of_denom_pos)
  from pq have x: "\<bar>x\<bar> = of_int p / of_int q" by (rule quotient_of_div)
  from assms have "0 < \<bar>x\<bar>" by simp
  with x q have p: "0 < p" by (simp add: zero_less_divide_iff)
  define d where "d = bitlen p - bitlen q"
  note bp = bitlen_powi_bounds [OF p] and bq = bitlen_powi_bounds [OF q]
  have qpos: "(0::rat) < of_int q" using q by simp
  have lo: "(2::rat) powi (d - 1) \<le> \<bar>x\<bar>"
  proof -
    have "(2::rat) powi (d - 1) * of_int q \<le> 2 powi (d - 1) * 2 powi bitlen q"
      using bq(2) by (intro mult_left_mono) simp_all
    also have "\<dots> = 2 powi (bitlen p - 1)"
      by (simp add: d_def power_int_add [symmetric])
    also have "\<dots> \<le> of_int p" by (rule bp(1))
    finally show ?thesis using qpos by (simp add: x pos_le_divide_eq)
  qed
  have hi: "\<bar>x\<bar> < (2::rat) powi (d + 1)"
  proof -
    have "(of_int p :: rat) < 2 powi bitlen p" by (rule bp(2))
    also have "\<dots> = 2 powi (d + 1) * 2 powi (bitlen q - 1)"
      by (simp add: d_def power_int_add [symmetric])
    also have "\<dots> \<le> 2 powi (d + 1) * of_int q"
      using bq(1) by (intro mult_left_mono) simp_all
    finally show ?thesis using qpos by (simp add: x pos_divide_less_eq)
  qed
  have e: "expo x = (if 2 powi d \<le> \<bar>x\<bar> then d else d - 1)"
    by (simp add: expo_def pq d_def Let_def)
  show "2 powi expo x \<le> \<bar>x\<bar>" using lo by (simp add: e)
  show "\<bar>x\<bar> < 2 powi (expo x + 1)" using hi by (auto simp: e)
qed

lemma expo_unique:
  assumes "2 powi k \<le> \<bar>x\<bar>" and "\<bar>x\<bar> < 2 powi (k + 1)"
  shows "expo x = k"
proof -
  have "(0::rat) < 2 powi k" by simp
  from this assms(1) have "0 < \<bar>x\<bar>" by (rule less_le_trans)
  then have nz: "x \<noteq> 0" by simp
  note b = expo_bounds [OF nz]
  from b(1) assms(2) have "(2::rat) powi expo x < 2 powi (k + 1)" by (rule le_less_trans)
  then have 1: "expo x < k + 1" by (simp only: powi2_less_iff)
  from assms(1) b(2) have "(2::rat) powi k < 2 powi (expo x + 1)" by (rule le_less_trans)
  then have 2: "k < expo x + 1" by (simp only: powi2_less_iff)
  from 1 2 show ?thesis by simp
qed


lemma roundToEven_cases:
  "roundToEven y = \<lfloor>y\<rfloor> \<and> y - of_int \<lfloor>y\<rfloor> \<le> 1 / 2 \<or>
   roundToEven y = \<lfloor>y\<rfloor> + 1 \<and> 1 / 2 \<le> y - of_int \<lfloor>y\<rfloor>"
  by (auto simp: roundToEven_def Let_def)

lemma roundToEven_nearest: "\<bar>of_int (roundToEven y) - y\<bar> \<le> \<bar>of_int z - y\<bar>"
proof -
  define f where "f = \<lfloor>y\<rfloor>"
  have f: "of_int f \<le> y" "y < of_int f + 1"
    unfolding f_def by linarith+
  consider "z \<le> f" | "f + 1 \<le> z" by linarith
  then show ?thesis
  proof cases
    case 1
    then have "(of_int z :: rat) \<le> of_int f" by (simp only: of_int_le_iff)
    with f roundToEven_cases [of y] show ?thesis unfolding f_def [symmetric] by auto
  next
    case 2
    then have "(of_int (f + 1) :: rat) \<le> of_int z" by (simp only: of_int_le_iff)
    then have "(of_int f :: rat) + 1 \<le> of_int z" by simp
    with f roundToEven_cases [of y] show ?thesis unfolding f_def [symmetric] by auto
  qed
qed

lemma roundToEven_of_int [simp]: "roundToEven (of_int z) = z"
  by (simp add: roundToEven_def)

lemma roundToEven_bound:
  assumes "\<bar>y\<bar> < of_int N"
  shows "\<bar>roundToEven y\<bar> \<le> N"
proof -
  from assms have "y < of_int N" "of_int (- N) < y" by auto
  then have "\<lfloor>y\<rfloor> < N" "- N \<le> \<lfloor>y\<rfloor>" by (simp_all add: floor_less_iff le_floor_iff less_imp_le)
  with roundToEven_cases [of y] show ?thesis by auto
qed


lemma multiple_of_smaller_power:
  assumes "g \<le> k"
  shows "\<exists>z. (of_int m :: rat) * 2 powi k = of_int z * 2 powi g"
proof -
  from assms have "(2::rat) powi k = 2 powi (k - g) * 2 powi g"
    by (simp add: power_int_add [symmetric])
  also from assms have "(2::rat) powi (k - g) = of_int (2 ^ nat (k - g))"
    by (simp add: power_int_nonneg_exp)
  finally have "(of_int m :: rat) * 2 powi k = of_int (m * 2 ^ nat (k - g)) * 2 powi g"
    by simp
  then show ?thesis ..
qed

lemma isDouble_multiple_tiny:
  assumes "isDouble d"
  shows "\<exists>z. d = of_int z * 2 powi (- 1074)"
proof -
  from assms obtain m k where d: "d = of_int m * 2 powi k" and k: "- 1074 \<le> k"
    unfolding isDouble_def by blast
  from multiple_of_smaller_power [OF k, of m] d show ?thesis by simp
qed

lemma isDouble_multiple_quantum:
  assumes "isDouble d" and "2 powi e \<le> \<bar>d\<bar>"
  shows "\<exists>z. d = of_int z * 2 powi (max (e - 52) (- 1074))"
proof -
  from assms(1) obtain m k where d: "d = of_int m * 2 powi k" and m: "\<bar>m\<bar> < 2 ^ 53"
    and k: "- 1074 \<le> k"
    unfolding isDouble_def by blast
  from m have "(of_int \<bar>m\<bar> :: rat) < of_int (2 ^ 53)" by (simp only: of_int_less_iff)
  then have "(of_int \<bar>m\<bar> :: rat) * 2 powi k < 2 ^ 53 * 2 powi k"
    by (intro mult_strict_right_mono) simp_all
  also have "\<dots> = 2 powi (k + 53)"
    by (simp add: power_int_add)
  finally have "\<bar>d\<bar> < 2 powi (k + 53)" by (simp add: d abs_mult)
  with assms(2) have "(2::rat) powi e < 2 powi (k + 53)" by (rule le_less_trans)
  then have "e < k + 53" by (simp only: powi2_less_iff)
  with k have "max (e - 52) (- 1074) \<le> k" by simp
  from multiple_of_smaller_power [OF this, of m] d show ?thesis by simp
qed

lemma isDoubleI:
  assumes "\<bar>z\<bar> \<le> 2 ^ 53" and "- 1074 \<le> g"
  shows "isDouble (of_int z * 2 powi g)"
proof (cases "\<bar>z\<bar> < 2 ^ 53")
  case True
  with assms(2) show ?thesis unfolding isDouble_def by blast
next
  case False
  with assms(1) have "\<bar>z\<bar> = 2 ^ 53" by simp
  then have "z = 2 ^ 53 \<or> z = - (2 ^ 53)" by linarith
  then obtain h :: int where z: "z = 2 * h" and h: "\<bar>h\<bar> < 2 ^ 53"
  proof
    assume "z = 2 ^ 53"
    then have "z = 2 * 2 ^ 52" "\<bar>2 ^ 52 :: int\<bar> < 2 ^ 53" by simp_all
    then show ?thesis by (rule that)
  next
    assume "z = - (2 ^ 53)"
    then have "z = 2 * (- (2 ^ 52))" "\<bar>- (2 ^ 52) :: int\<bar> < 2 ^ 53" by simp_all
    then show ?thesis by (rule that)
  qed
  have "(of_int z :: rat) * 2 powi g = of_int h * (2 * 2 powi g)"
    by (simp add: z)
  also have "(2::rat) * 2 powi g = 2 powi (g + 1)" by (simp add: power_int_add)
  finally have "(of_int z :: rat) * 2 powi g = of_int h * 2 powi (g + 1)" .
  moreover from assms(2) have "- 1074 \<le> g + 1" by simp
  ultimately show ?thesis using h unfolding isDouble_def by blast
qed

lemma nearest_multiple:
  assumes "0 < q"
  shows "\<bar>of_int (roundToEven (x / q)) * q - x\<bar> \<le> \<bar>of_int z * q - x\<bar>"
proof -
  have eq: "of_int w * q - x = q * (of_int w - x / q)" for w :: int
    using assms by (simp add: field_simps)
  have "q * \<bar>of_int (roundToEven (x / q)) - x / q\<bar> \<le> q * \<bar>of_int z - x / q\<bar>"
    using assms by (intro mult_left_mono roundToEven_nearest) simp
  with assms show ?thesis by (simp add: eq abs_mult)
qed

lemma isDouble_binary64: "isDouble (binary64 x)"
proof (cases "x = 0")
  case True
  have "isDouble (of_int 0 * 2 powi 0)" by (rule isDoubleI) simp_all
  with True show ?thesis by (simp add: binary64_def)
next
  case False
  define g where "g = max (expo x - 52) (- 1074)"
  have g: "- 1074 \<le> g" "expo x + 1 \<le> g + 53" by (simp_all add: g_def)
  have q: "quantum x = 2 powi g" by (simp add: quantum_def g_def)
  from expo_bounds(2) [OF False] have "\<bar>x\<bar> < 2 powi (expo x + 1)" .
  also from g(2) have "(2::rat) powi (expo x + 1) \<le> 2 powi (g + 53)" by (simp only: powi2_le_iff)
  also have "(2::rat) powi (g + 53) = 2 ^ 53 * 2 powi g" by (simp add: power_int_add)
  finally have "\<bar>x\<bar> / 2 powi g < 2 ^ 53" by (simp add: pos_divide_less_eq)
  then have "\<bar>x / 2 powi g\<bar> < of_int (2 ^ 53)" by simp
  then have "\<bar>roundToEven (x / 2 powi g)\<bar> \<le> 2 ^ 53" by (rule roundToEven_bound)
  from isDoubleI [OF this g(1)] False show ?thesis by (simp add: binary64_def q)
qed

lemma binary64_nearest:
  assumes "isDouble d"
  shows "\<bar>binary64 x - x\<bar> \<le> \<bar>d - x\<bar>"
proof (cases "x = 0")
  case True
  then show ?thesis by (simp add: binary64_def)
next
  case False
  define e where "e = expo x"
  define g where "g = max (e - 52) (- 1074)"
  define q :: rat where "q = 2 powi g"
  have qpos: "0 < q" by (simp add: q_def)
  have b: "binary64 x = of_int (roundToEven (x / q)) * q"
    using False by (simp add: binary64_def quantum_def q_def g_def e_def)
  have near: "\<bar>binary64 x - x\<bar> \<le> \<bar>of_int z * q - x\<bar>" for z
    unfolding b by (rule nearest_multiple [OF qpos])
  have lo: "2 powi e \<le> \<bar>x\<bar>" unfolding e_def by (rule expo_bounds(1) [OF False])
  show ?thesis
  proof (cases "e - 52 \<le> - 1074 \<or> 2 powi e \<le> \<bar>d\<bar>")
    case True
    then have "\<exists>z. d = of_int z * q"
    proof
      assume "e - 52 \<le> - 1074"
      then have "g = - 1074" by (simp add: g_def)
      with isDouble_multiple_tiny [OF assms] show ?thesis by (simp add: q_def)
    next
      assume "2 powi e \<le> \<bar>d\<bar>"
      from isDouble_multiple_quantum [OF assms this] show ?thesis by (simp add: q_def g_def)
    qed
    then obtain z where "d = of_int z * q" ..
    with near [of z] show ?thesis by simp
  next
    case False
    then have big: "- 1074 < e - 52" and small: "\<bar>d\<bar> < 2 powi e" by simp_all
    from big have "g = e - 52" by (simp add: g_def)
    then have "e = g + 52" by simp
    then have "(2::rat) powi e = 2 ^ 52 * 2 powi g" by (simp add: power_int_add)
    then have E: "(2::rat) powi e = of_int (2 ^ 52) * q" by (simp add: q_def)
    show ?thesis
    proof (cases "0 < x")
      case True
      with lo have "2 powi e \<le> x" by simp
      with small have "\<bar>2 powi e - x\<bar> \<le> \<bar>d - x\<bar>" by linarith
      with near [of "2 ^ 52"] E show ?thesis by simp
    next
      case False
      with lo have "x \<le> - (2 powi e)" by simp
      with small have "\<bar>- (2 powi e) - x\<bar> \<le> \<bar>d - x\<bar>" by linarith
      moreover have "- ((2::rat) powi e) = of_int (- (2 ^ 52)) * q" using E by simp
      ultimately show ?thesis using near [of "- (2 ^ 52)"] by simp
    qed
  qed
qed

lemma roundsToNearest_binary64: "roundsToNearest binary64"
  unfolding roundsToNearest_def by (blast intro: isDouble_binary64 binary64_nearest)


lemma roundsToNearest_fixed:
  assumes "roundsToNearest rnd" and "isDouble d"
  shows "rnd d = d"
proof -
  from assms have "\<bar>rnd d - d\<bar> \<le> \<bar>d - d\<bar>" unfolding roundsToNearest_def by blast
  then show ?thesis by simp
qed

lemma roundsToNearest_isDouble:
  assumes "roundsToNearest rnd" and "rnd a = a"
  shows "isDouble a"
proof -
  from assms(1) have "isDouble (rnd a)" unfolding roundsToNearest_def by blast
  with assms(2) show ?thesis by simp
qed

lemma roundsToNearest_mono:
  assumes r: "roundsToNearest rnd" and xy: "x \<le> y"
  shows "rnd x \<le> rnd y"
proof (rule ccontr)
  assume "\<not> rnd x \<le> rnd y"
  then have less: "rnd y < rnd x" by simp
  from r have dx: "isDouble (rnd x)" and dy: "isDouble (rnd y)"
    unfolding roundsToNearest_def by blast+
  from r dy have 1: "\<bar>rnd x - x\<bar> \<le> \<bar>rnd y - x\<bar>" unfolding roundsToNearest_def by blast
  from r dx have 2: "\<bar>rnd y - y\<bar> \<le> \<bar>rnd x - y\<bar>" unfolding roundsToNearest_def by blast
  from less xy 1 2 have "x = y" by linarith
  with less show False by simp
qed

lemma scaled_int_le:
  assumes "(0::rat) < p"
  shows "of_int X * p \<le> of_int Y * p \<longleftrightarrow> X \<le> Y"
  using assms by (simp add: mult_le_cancel_right)

lemma scaled_int_less:
  assumes "(0::rat) < p"
  shows "of_int X * p < of_int Y * p \<longleftrightarrow> X < Y"
  using assms by (simp add: mult_less_cancel_right)

lemma isDouble_diff:
  assumes a: "isDouble a" and b: "isDouble b" and ba: "b \<le> a" and ab: "a \<le> 2 * b"
  shows "isDouble (a - b)"
proof -
  from a obtain ma ka where a': "a = of_int ma * 2 powi ka" and ma: "\<bar>ma\<bar> < 2 ^ 53"
    and ka: "- 1074 \<le> ka" unfolding isDouble_def by blast
  from b obtain mb kb where b': "b = of_int mb * 2 powi kb" and mb: "\<bar>mb\<bar> < 2 ^ 53"
    and kb: "- 1074 \<le> kb" unfolding isDouble_def by blast
  from ba ab have b0: "0 \<le> b" by simp
  show ?thesis
  proof (cases "kb \<le> ka")
    case True
    define p :: rat where "p = 2 powi kb"
    have p: "0 < p" by (simp add: p_def)
    from multiple_of_smaller_power [OF True, of ma] obtain A where A: "a = of_int A * p"
      unfolding a' p_def by blast
    have B: "b = of_int mb * p" by (simp add: b' p_def)
    have d: "a - b = of_int (A - mb) * p" by (simp add: A B algebra_simps)
    from ba have "of_int mb * p \<le> of_int A * p" by (simp add: A B)
    then have 1: "mb \<le> A" by (simp only: scaled_int_le [OF p])
    from ab have "of_int A * p \<le> of_int (2 * mb) * p" by (simp add: A B)
    then have 2: "A \<le> 2 * mb" by (simp only: scaled_int_le [OF p])
    from 1 2 mb have "\<bar>A - mb\<bar> \<le> 2 ^ 53" by linarith
    from isDoubleI [OF this kb] show ?thesis by (simp add: d p_def)
  next
    case False
    then have le: "ka \<le> kb" by simp
    define p :: rat where "p = 2 powi ka"
    have p: "0 < p" by (simp add: p_def)
    from multiple_of_smaller_power [OF le, of mb] obtain B where B: "b = of_int B * p"
      unfolding b' p_def by blast
    have A: "a = of_int ma * p" by (simp add: a' p_def)
    have d: "a - b = of_int (ma - B) * p" by (simp add: A B algebra_simps)
    from ba have "of_int B * p \<le> of_int ma * p" by (simp add: A B)
    then have 1: "B \<le> ma" by (simp only: scaled_int_le [OF p])
    from b0 have "of_int 0 * p \<le> of_int B * p" by (simp add: B)
    then have 2: "0 \<le> B" by (simp only: scaled_int_le [OF p])
    from 1 2 ma have "\<bar>ma - B\<bar> \<le> 2 ^ 53" by linarith
    from isDoubleI [OF this ka] show ?thesis by (simp add: d p_def)
  qed
qed

lemma isDouble_gap:
  assumes a: "isDouble a" and b: "isDouble b" and ba: "b < a"
  shows "2 powi (- 1074) \<le> a - b"
proof -
  define t :: rat where "t = 2 powi (- 1074)"
  have t: "0 < t" unfolding t_def by (rule zero_less_power_int) simp
  from isDouble_multiple_tiny [OF a] obtain za where A: "a = of_int za * t" unfolding t_def by blast
  from isDouble_multiple_tiny [OF b] obtain zb where B: "b = of_int zb * t" unfolding t_def by blast
  from ba have "of_int zb * t < of_int za * t" by (simp only: A B)
  then have "zb < za" by (simp only: scaled_int_less [OF t])
  then have "1 \<le> za - zb" by simp
  then have "of_int 1 * t \<le> of_int (za - zb) * t" by (simp only: scaled_int_le [OF t])
  then show ?thesis unfolding t_def [symmetric] by (simp add: A B algebra_simps)
qed

lemma isDouble_tiny: "isDouble (2 powi (- 1074))"
proof -
  have "isDouble (of_int 1 * 2 powi (- 1074))" by (rule isDoubleI) simp_all
  then show ?thesis by simp
qed

lemma roundingLaws_roundsToNearest:
  assumes r: "roundsToNearest rnd"
  shows "roundingLaws rnd"
  unfolding roundingLaws_def
proof (intro conjI allI impI)
  fix x y :: rat assume "x \<le> y"
  with r show "rnd x \<le> rnd y" by (rule roundsToNearest_mono)
next
  fix x
  from r have "isDouble (rnd x)" unfolding roundsToNearest_def by blast
  with r show "rnd (rnd x) = rnd x" by (rule roundsToNearest_fixed)
next
  fix a b assume h: "rnd a = a \<and> rnd b = b \<and> b \<le> a \<and> a \<le> 2 * b"
  then have "isDouble a" "isDouble b" using r by (blast intro: roundsToNearest_isDouble)+
  with h have "isDouble (a - b)" by (blast intro: isDouble_diff)
  with r show "rnd (a - b) = a - b" by (rule roundsToNearest_fixed)
next
  fix a b assume h: "rnd a = a \<and> rnd b = b \<and> b < a"
  then have "isDouble a" "isDouble b" using r by (blast intro: roundsToNearest_isDouble)+
  with h have "2 powi (- 1074) \<le> a - b" by (blast intro: isDouble_gap)
  with r have "rnd (2 powi (- 1074)) \<le> rnd (a - b)" by (rule roundsToNearest_mono)
  also from r isDouble_tiny have "rnd (2 powi (- 1074)) = 2 powi (- 1074)"
    by (rule roundsToNearest_fixed)
  finally have le: "(2::rat) powi (- 1074) \<le> rnd (a - b)" .
  have "(0::rat) < 2 powi (- 1074)" by (rule zero_less_power_int) simp
  from this le show "0 < rnd (a - b)" by (rule less_le_trans)
qed

lemma roundingLaws_binary64: "roundingLaws binary64"
  by (rule roundingLaws_roundsToNearest [OF roundsToNearest_binary64])

lemma roundingLaws_exact: "roundingLaws (\<lambda>x. x)"
  by (simp add: roundingLaws_def)

subsection \<open>The clock and the frames\<close>

lemma tick_fields:
  "isPlaying (g_sim (tickSimulationTimer now freq s)) = isPlaying (g_sim s)"
  "shouldRunFrame (g_sim (tickSimulationTimer now freq s)) = shouldRunFrame (g_sim s)"
  "fps (g_sim (tickSimulationTimer now freq s)) = fps (g_sim s)"
  "timestamp (g_sim (tickSimulationTimer now freq s)) = now"
  by (simp_all add: tickSimulationTimer_def Let_def)

lemma tick_accumulatedSeconds:
  "accumulatedSeconds (tickSimulationTimer now freq s) =
     (let acc = accumulatedSeconds s +
                  of_nat (unat (now - timestamp (g_sim s))) / of_nat (unat freq)
      in if acc > 1 / fps (g_sim s) then acc - 1 / fps (g_sim s) else acc)"
  by (simp add: tickSimulationTimer_def Let_def)

lemma tick_isAFixedUpdate:
  "isAFixedUpdate (g_sim (tickSimulationTimer now freq s)) \<longleftrightarrow>
     accumulatedSeconds s + of_nat (unat (now - timestamp (g_sim s))) / of_nat (unat freq)
       > 1 / fps (g_sim s)"
  by (simp add: tickSimulationTimer_def Let_def)

text \<open>
  In exact arithmetic a tick that fires keeps the time accumulated before plus the time
  elapsed, less one cycle period.
\<close>

lemma tick_fired_exact:
  assumes "isAFixedUpdate (g_sim (tickSimulationTimer now freq s))"
  shows "(let cyclePeriod = 1 / fps (g_sim s);
              elapsed = of_nat (unat (now - timestamp (g_sim s))) / of_nat (unat freq);
              acc' = accumulatedSeconds (tickSimulationTimer now freq s)
          in acc' = accumulatedSeconds s + elapsed - cyclePeriod \<and>
             0 < acc' \<and>
             (acc' < cyclePeriod \<longleftrightarrow> accumulatedSeconds s + elapsed < 2 * cyclePeriod))"
  using assms unfolding tick_isAFixedUpdate tick_accumulatedSeconds Let_def by auto

lemma tickSimulationTimer_exact:
  "tickSimulationTimer_rounded (\<lambda>x. x) now freq s = tickSimulationTimer now freq s"
  by (simp add: tickSimulationTimer_rounded_def tickSimulationTimer_def)

lemma tick_rounded_fields:
  "g_map (tickSimulationTimer_rounded rnd now freq s) = g_map s"
  "isPlaying (g_sim (tickSimulationTimer_rounded rnd now freq s)) = isPlaying (g_sim s)"
  "shouldRunFrame (g_sim (tickSimulationTimer_rounded rnd now freq s)) = shouldRunFrame (g_sim s)"
  "fps (g_sim (tickSimulationTimer_rounded rnd now freq s)) = fps (g_sim s)"
  "timestamp (g_sim (tickSimulationTimer_rounded rnd now freq s)) = now"
  by (simp_all add: tickSimulationTimer_rounded_def Let_def)

lemma tick_rounded_isAFixedUpdate:
  "isAFixedUpdate (g_sim (tickSimulationTimer_rounded rnd now freq s)) \<longleftrightarrow>
     rnd (1 / fps (g_sim s)) <
       rnd (accumulatedSeconds s +
            rnd (rnd (of_nat (unat (now - timestamp (g_sim s)))) / rnd (of_nat (unat freq))))"
  by (simp add: tickSimulationTimer_rounded_def Let_def)

lemma tick_rounded_accumulatedSeconds:
  "accumulatedSeconds (tickSimulationTimer_rounded rnd now freq s) =
     (let total = rnd (accumulatedSeconds s +
            rnd (rnd (of_nat (unat (now - timestamp (g_sim s)))) / rnd (of_nat (unat freq))))
      in if rnd (1 / fps (g_sim s)) < total then rnd (total - rnd (1 / fps (g_sim s))) else total)"
  by (simp add: tickSimulationTimer_rounded_def Let_def)

lemma rounded_excess:
  assumes laws: "roundingLaws rnd" and fired: "rnd c < rnd t"
  shows "0 < rnd (rnd t - rnd c)"
    and "rnd (rnd t - rnd c) < rnd c \<longleftrightarrow> rnd t < 2 * rnd c"
    and "rnd t \<le> 2 * rnd c \<longrightarrow> rnd (rnd t - rnd c) = rnd t - rnd c"
proof -
  from laws have mono: "\<And>x y. x \<le> y \<Longrightarrow> rnd x \<le> rnd y"
    and idem: "\<And>x. rnd (rnd x) = rnd x"
    and exact: "\<And>a b. rnd a = a \<Longrightarrow> rnd b = b \<Longrightarrow> b \<le> a \<Longrightarrow> a \<le> 2 * b \<Longrightarrow> rnd (a - b) = a - b"
    and pos: "\<And>a b. rnd a = a \<Longrightarrow> rnd b = b \<Longrightarrow> b < a \<Longrightarrow> 0 < rnd (a - b)"
    unfolding roundingLaws_def by blast+
  show "0 < rnd (rnd t - rnd c)" by (rule pos [OF idem idem fired])
  have near: "rnd (rnd t - rnd c) = rnd t - rnd c" if "rnd t \<le> 2 * rnd c"
    using fired that by (intro exact idem) simp_all
  then show "rnd t \<le> 2 * rnd c \<longrightarrow> rnd (rnd t - rnd c) = rnd t - rnd c" by blast
  show "rnd (rnd t - rnd c) < rnd c \<longleftrightarrow> rnd t < 2 * rnd c"
  proof
    assume "rnd t < 2 * rnd c"
    with near show "rnd (rnd t - rnd c) < rnd c" by simp
  next
    assume l: "rnd (rnd t - rnd c) < rnd c"
    show "rnd t < 2 * rnd c"
    proof (rule ccontr)
      assume "\<not> rnd t < 2 * rnd c"
      then have "rnd c \<le> rnd t - rnd c" by simp
      then have "rnd (rnd c) \<le> rnd (rnd t - rnd c)" by (rule mono)
      with l show False by (simp add: idem)
    qed
  qed
qed

text \<open>
  Claim C2, as amended. Let \<open>total\<close> be the accumulated time that the tick computes before
  its test: the time accumulated before the tick plus the time elapsed, every operation
  rounded to \<open>double\<close>. After a tick that fires, \<open>total\<close> was above one cycle period and
  the accumulated time is \<open>total\<close> less one cycle period, rounded; it is positive; and it is
  below one cycle period exactly if \<open>total\<close> was below two cycle periods (the subtraction
  is then exact). The tick subtracts one period only, so after a longer gap a full period
  or more stays accumulated. The laws asked of the rounding hold of every rounding to a
  nearest double (\<open>roundingLaws_roundsToNearest\<close>), of \<open>binary64\<close>, and of exact arithmetic.
\<close>

theorem tick_fired_accumulator:
  assumes "roundingLaws rnd"
    and "isAFixedUpdate (g_sim (tickSimulationTimer_rounded rnd now freq s))"
  shows "(let cyclePeriod = rnd (1 / fps (g_sim s));
              elapsed = rnd (rnd (of_nat (unat (now - timestamp (g_sim s)))) / rnd (of_nat (unat freq)));
              total = rnd (accumulatedSeconds s + elapsed);
              acc' = accumulatedSeconds (tickSimulationTimer_rounded rnd now freq s)
          in cyclePeriod < total \<and>
             acc' = rnd (total - cyclePeriod) \<and>
             0 < acc' \<and>
             (acc' < cyclePeriod \<longleftrightarrow> total < 2 * cyclePeriod) \<and>
             (total \<le> 2 * cyclePeriod \<longrightarrow> acc' = total - cyclePeriod))"
proof -
  define c where "c = 1 / fps (g_sim s)"
  define t where "t = accumulatedSeconds s +
      rnd (rnd (of_nat (unat (now - timestamp (g_sim s)))) / rnd (of_nat (unat freq)))"
  from assms(2) have fired: "rnd c < rnd t"
    by (simp add: tick_rounded_isAFixedUpdate c_def t_def)
  then have acc: "accumulatedSeconds (tickSimulationTimer_rounded rnd now freq s) = rnd (rnd t - rnd c)"
    by (simp add: tick_rounded_accumulatedSeconds Let_def c_def t_def)
  from rounded_excess [OF assms(1) fired] fired show ?thesis
    unfolding Let_def acc c_def [symmetric] t_def [symmetric] by blast
qed

lemma tickEvery_fps: "fps (g_sim (tickEvery freq d n s)) = fps (g_sim s)"
  by (induction n) (simp_all add: Let_def tick_fields)

text \<open>
  Claim C3, as amended. From an accumulated time of 0, with counter readings that advance
  by exactly one cycle period per call, the first call is not due and every later call is;
  after each call the accumulated time is exactly one cycle period (the test of the tick is
  a strict \<open>>\<close>).
\<close>
theorem tick_every_cycle_period:
  assumes "accumulatedSeconds s = 0" and "0 < fps (g_sim s)"
    and "of_nat (unat d) / of_nat (unat freq) = 1 / fps (g_sim s)"
  shows "isAFixedUpdate (g_sim (tickEvery freq d (Suc n) s)) = (0 < n) \<and>
         accumulatedSeconds (tickEvery freq d (Suc n) s) = 1 / fps (g_sim s)"
proof (induction n)
  case 0
  have "accumulatedSeconds s +
          of_nat (unat (timestamp (g_sim s) + d - timestamp (g_sim s))) / of_nat (unat freq) =
        1 / fps (g_sim s)"
    by (simp only: assms(1) assms(3) add_diff_cancel_left' add_0)
  then show ?case
    by (simp only: tickEvery.simps Let_def tick_isAFixedUpdate tick_accumulatedSeconds) simp
next
  case (Suc n)
  define s' where "s' = tickEvery freq d (Suc n) s"
  define c where "c = 1 / fps (g_sim s)"
  have acc: "accumulatedSeconds s' = c" using Suc by (simp add: s'_def c_def)
  have f: "1 / fps (g_sim s') = c" unfolding s'_def c_def by (simp only: tickEvery_fps)
  have step: "tickEvery freq d (Suc (Suc n)) s = tickSimulationTimer (timestamp (g_sim s') + d) freq s'"
    by (simp add: s'_def Let_def)
  from assms(2) have pos: "0 < c" by (simp add: c_def)
  have sum: "accumulatedSeconds s' +
          of_nat (unat (timestamp (g_sim s') + d - timestamp (g_sim s'))) / of_nat (unat freq) =
        c + c"
    by (simp only: acc assms(3) add_diff_cancel_left' c_def)
  show ?case
    unfolding step tick_isAFixedUpdate tick_accumulatedSeconds Let_def sum f c_def [symmetric]
    using pos by simp
qed

lemma iterate_paused:
  assumes "\<not> isPlaying (g_sim s)"
  shows "snd (SDL_AppIterate now freq s) =
     (let s1 = tickSimulationTimer now freq s
      in if frameAdvances now freq s
         then s1\<lparr>g_sim := (g_sim s1)\<lparr>shouldRunFrame := False\<rparr>,
                 g_map := simulateConwayIteration (g_map s)\<rparr>
         else s1)"
  using assms
  by (simp add: SDL_AppIterate_def frameAdvances_def Let_def tick_fields g_map_tickSimulationTimer)

lemma frameAdvances_paused:
  "\<not> isPlaying (g_sim s) \<Longrightarrow>
   frameAdvances now freq s = (shouldRunFrame (g_sim s) \<and> tickIsDue now freq s)"
  by (auto simp: frameAdvances_def tickIsDue_def Let_def tick_fields)

lemma paused_without_request:
  assumes "\<not> isPlaying (g_sim s)" and "\<not> shouldRunFrame (g_sim s)"
  shows "advanceTrace freq nows s = map (\<lambda>b. False) (dueTrace freq nows s) \<and>
         g_map (iterateAll freq nows s) = g_map s \<and>
         \<not> isPlaying (g_sim (iterateAll freq nows s)) \<and>
         \<not> shouldRunFrame (g_sim (iterateAll freq nows s))"
  using assms
proof (induction nows arbitrary: s)
  case Nil
  then show ?case by simp
next
  case (Cons now nows)
  define s2 where "s2 = snd (SDL_AppIterate now freq s)"
  from Cons.prems have no: "\<not> frameAdvances now freq s"
    by (simp add: frameAdvances_paused)
  with Cons.prems have s2: "s2 = tickSimulationTimer now freq s"
    by (simp add: s2_def iterate_paused)
  with Cons.prems have "\<not> isPlaying (g_sim s2)" "\<not> shouldRunFrame (g_sim s2)" "g_map s2 = g_map s"
    by (simp_all add: tick_fields g_map_tickSimulationTimer)
  with Cons.IH [of s2] no show ?case by (simp add: s2_def)
qed

lemma count_spec_firstOnly:
  "length (filter id (spec_firstOnly bs)) = (if True \<in> set bs then 1 else 0)"
  by (induction bs rule: spec_firstOnly.induct) (auto simp: filter_empty_conv)

text \<open>
  Claim C4. Paused, with the single-step request set, any number of consecutive frames
  advances the generation in the first frame whose tick is due and in no other: the frames
  that advance are \<open>spec_firstOnly\<close> of the due ticks, at most one, and the grid at the end
  is one \<open>simulateConwayIteration\<close> of the grid at the start if a tick was due, and the grid
  at the start otherwise. The request is cleared by that advance.
\<close>
theorem single_step_once:
  assumes "\<not> isPlaying (g_sim s)" and "shouldRunFrame (g_sim s)"
  shows "(let dues = dueTrace freq nows s; s' = iterateAll freq nows s
          in advanceTrace freq nows s = spec_firstOnly dues \<and>
             length (filter id (advanceTrace freq nows s)) = (if True \<in> set dues then 1 else 0) \<and>
             g_map s' = (if True \<in> set dues then simulateConwayIteration (g_map s) else g_map s) \<and>
             shouldRunFrame (g_sim s') = (True \<notin> set dues) \<and>
             \<not> isPlaying (g_sim s'))"
proof -
  have "advanceTrace freq nows s = spec_firstOnly (dueTrace freq nows s) \<and>
        g_map (iterateAll freq nows s) =
          (if True \<in> set (dueTrace freq nows s) then simulateConwayIteration (g_map s) else g_map s) \<and>
        shouldRunFrame (g_sim (iterateAll freq nows s)) = (True \<notin> set (dueTrace freq nows s)) \<and>
        \<not> isPlaying (g_sim (iterateAll freq nows s))"
    using assms
  proof (induction nows arbitrary: s)
    case Nil
    then show ?case by simp
  next
    case (Cons now nows)
    define s2 where "s2 = snd (SDL_AppIterate now freq s)"
    show ?case
    proof (cases "tickIsDue now freq s")
      case True
      with Cons.prems have adv: "frameAdvances now freq s" by (simp add: frameAdvances_paused)
      with Cons.prems have "\<not> isPlaying (g_sim s2)" "\<not> shouldRunFrame (g_sim s2)"
          "g_map s2 = simulateConwayIteration (g_map s)"
        by (simp_all add: s2_def iterate_paused Let_def tick_fields)
      with paused_without_request [of s2 freq nows] True adv show ?thesis
        by (simp add: s2_def)
    next
      case False
      with Cons.prems have adv: "\<not> frameAdvances now freq s" by (simp add: frameAdvances_paused)
      with Cons.prems have "\<not> isPlaying (g_sim s2)" "shouldRunFrame (g_sim s2)" "g_map s2 = g_map s"
        by (simp_all add: s2_def iterate_paused Let_def tick_fields g_map_tickSimulationTimer)
      with Cons.IH [of s2] False adv show ?thesis
        by (simp add: s2_def)
    qed
  qed
  then show ?thesis by (simp add: Let_def count_spec_firstOnly)
qed

subsection \<open>The rectangles of the grid, and painting by dragging\<close>

lemma cellDrawList_initCell:
  "cellDrawList (initCell j i m) k =
     (if k - GRID_SIZE_X * j = i then cellRect (k - GRID_SIZE_X * j) j else cellDrawList m k)"
  by (auto simp: initCell_def)

lemma cellDrawList_fold_initCell:
  "cellDrawList (fold (initCell j) cols m) k =
     (if k - GRID_SIZE_X * j \<in> set cols then cellRect (k - GRID_SIZE_X * j) j
      else cellDrawList m k)"
  by (induction cols arbitrary: m) (simp_all add: cellDrawList_initCell)

lemma row_of_index:
  "k - GRID_SIZE_X * j \<in> set [0..GRID_SIZE_X - 1] \<longleftrightarrow> k div GRID_SIZE_X = j"
  unfolding GRID_SIZE_X_def by (simp only: set_upto atLeastAtMost_iff) presburger

lemma col_of_index: "k div GRID_SIZE_X = j \<Longrightarrow> k - GRID_SIZE_X * j = k mod GRID_SIZE_X"
  unfolding GRID_SIZE_X_def by presburger

lemma cellDrawList_initRow:
  "cellDrawList (fold (initCell j) [0..GRID_SIZE_X - 1] m) k =
     (if k div GRID_SIZE_X = j then cellRect (k mod GRID_SIZE_X) j else cellDrawList m k)"
proof (cases "k div GRID_SIZE_X = j")
  case True
  then have "k - GRID_SIZE_X * j \<in> set [0..GRID_SIZE_X - 1]" by (simp only: row_of_index)
  with True col_of_index [OF True] show ?thesis
    by (simp add: cellDrawList_fold_initCell)
next
  case False
  with row_of_index [of k j] have "k - GRID_SIZE_X * j \<notin> set [0..GRID_SIZE_X - 1]" by blast
  with False show ?thesis
    by (auto simp: cellDrawList_fold_initCell)
qed

lemma cellDrawList_fold_initCell_rows:
  "cellDrawList (fold (\<lambda>j. fold (initCell j) [0..GRID_SIZE_X - 1]) rows m) k =
     (if k div GRID_SIZE_X \<in> set rows then cellRect (k mod GRID_SIZE_X) (k div GRID_SIZE_X)
      else cellDrawList m k)"
  by (induction rows arbitrary: m) (auto simp: cellDrawList_initRow)

lemma cellFRect_initMap:
  assumes "inGrid cell"
  shows "cellFRect (initMap m) cell = cellRect (fst cell) (snd cell)"
proof -
  obtain i j where c: "cell = (i, j)" by (cases cell)
  with assms have r: "0 \<le> i" "i < GRID_SIZE_X" "0 \<le> j" "j < GRID_SIZE_Y"
    by (simp_all add: inGrid_def)
  then have d: "(GRID_SIZE_X * j + i) div GRID_SIZE_X = j" "(GRID_SIZE_X * j + i) mod GRID_SIZE_X = i"
    unfolding GRID_SIZE_X_def by simp_all
  have f: "frect (cellMap (initMap m) (i, j)) = GRID_SIZE_X * j + i"
    using assms c by (simp add: cellMap_initMap cellInit_def Let_def)
  have "cellFRect (initMap m) (i, j) = cellDrawList (initMap m) (GRID_SIZE_X * j + i)"
    by (simp add: cellFRect_def f)
  also have "\<dots> = cellRect i j"
    unfolding initMap_def cellDrawList_fold_initCell_rows d using r by simp
  finally show ?thesis by (simp add: c)
qed

lemma gridGeometry_initMap: "gridGeometry (initMap m)"
  by (simp add: gridGeometry_def cellFRect_initMap)

lemma gridGeometry_onlyLivenessDiffers:
  "onlyLivenessDiffers m m' \<Longrightarrow> gridGeometry m \<Longrightarrow> gridGeometry m'"
  by (simp add: gridGeometry_def cellFRect_onlyLivenessDiffers)

lemma SDL_PointInRectFloat_cellRect:
  "SDL_PointInRectFloat \<lparr>point_x = x, point_y = y\<rparr> (cellRect i j) \<longleftrightarrow>
     of_int (40 * i + 1) \<le> 2 * x \<and> 2 * x \<le> of_int (40 * i + 39) \<and>
     of_int (40 * j + 1) \<le> 2 * y \<and> 2 * y \<le> of_int (40 * j + 39)"
  by (auto simp: SDL_PointInRectFloat_def cellRect_def CELL_WIDTH_def CELL_HEIGHT_def
      MAX_WIDTH_def GRID_SIZE_X_def GRID_SIZE_Y_def GRID_GAP_def)

lemma column_unique:
  assumes "(of_int (40 * i + 1) :: rat) \<le> x" "x \<le> of_int (40 * i + 39)"
    and "of_int (40 * a + 1) \<le> x" "x \<le> of_int (40 * a + 39)"
  shows "i = a"
proof -
  from assms(1,4) have "(of_int (40 * i + 1) :: rat) \<le> of_int (40 * a + 39)" by (rule order_trans)
  then have 1: "40 * i + 1 \<le> 40 * a + 39" by (simp only: of_int_le_iff)
  from assms(3,2) have "(of_int (40 * a + 1) :: rat) \<le> of_int (40 * i + 39)" by (rule order_trans)
  then have 2: "40 * a + 1 \<le> 40 * i + 39" by (simp only: of_int_le_iff)
  from 1 2 show ?thesis by presburger
qed

lemma cellRect_disjoint:
  assumes "SDL_PointInRectFloat point (cellRect i j)" and "SDL_PointInRectFloat point (cellRect a b)"
  shows "i = a \<and> j = b"
proof -
  obtain x y where p: "point = \<lparr>point_x = x, point_y = y\<rparr>" by (cases point) simp
  from assms show ?thesis
    unfolding p SDL_PointInRectFloat_cellRect
    using column_unique [of i "2 * x" a] column_unique [of j "2 * y" b] by blast
qed

lemma getCellUnderPoint_on_grid:
  assumes "gridGeometry m" and "inGrid (i, j)"
    and "SDL_PointInRectFloat \<lparr>point_x = x, point_y = y\<rparr> (cellRect i j)"
  shows "getCellUnderPoint SDL_PointInRectFloat m x y = Some (i, j)"
proof (rule getCellUnderPoint_unique)
  show "inGrid (i, j)" by fact
  from assms(1,2) have r: "cellFRect m (i, j) = cellRect i j" by (simp add: gridGeometry_def)
  with assms(3) show "SDL_PointInRectFloat \<lparr>point_x = x, point_y = y\<rparr> (cellFRect m (i, j))"
    by simp
  show "\<forall>other. inGrid other \<and> SDL_PointInRectFloat \<lparr>point_x = x, point_y = y\<rparr> (cellFRect m other)
          \<longrightarrow> other = (i, j)"
  proof (intro allI impI)
    fix other assume o: "inGrid other \<and> SDL_PointInRectFloat \<lparr>point_x = x, point_y = y\<rparr> (cellFRect m other)"
    with assms(1) have "SDL_PointInRectFloat \<lparr>point_x = x, point_y = y\<rparr> (cellRect (fst other) (snd other))"
      unfolding gridGeometry_def by metis
    from cellRect_disjoint [OF this assms(3)] show "other = (i, j)" by (cases other) simp
  qed
qed

lemma handleDragMotion_step:
  assumes "dragStartCell m = Some a"
  shows "dragStartCell (handleDragMotion inRect motion m) = Some a \<and>
         isAlive (cellMap (handleDragMotion inRect motion m) cell) =
           (if getCellUnderPoint inRect m (motion_x motion) (motion_y motion) = Some cell
            then isAlive (cellMap m a) else isAlive (cellMap m cell))"
  using assms
  by (auto simp: handleDragMotion_def Let_def dragStartCell_setCellUnderPoint
      cellMap_setCellUnderPoint split: option.splits)

lemma handleDragMotion_all:
  assumes "dragStartCell m = Some a"
  shows "dragStartCell (fold (handleDragMotion inRect) motions m) = Some a \<and>
         isAlive (cellMap (fold (handleDragMotion inRect) motions m) cell) =
           (if Some cell \<in> set (map (\<lambda>mo. getCellUnderPoint inRect m (motion_x mo) (motion_y mo)) motions)
            then isAlive (cellMap m a) else isAlive (cellMap m cell))"
  using assms
proof (induction motions arbitrary: m)
  case Nil
  then show ?case by simp
next
  case (Cons mo motions)
  define m1 where "m1 = handleDragMotion inRect mo m"
  have anchor: "dragStartCell m1 = Some a"
    unfolding m1_def using handleDragMotion_step [OF Cons.prems] by blast
  have live: "isAlive (cellMap m1 c) =
      (if getCellUnderPoint inRect m (motion_x mo) (motion_y mo) = Some c
       then isAlive (cellMap m a) else isAlive (cellMap m c))" for c
    unfolding m1_def using handleDragMotion_step [OF Cons.prems] by blast
  have same: "getCellUnderPoint inRect m1 x y = getCellUnderPoint inRect m x y" for x y
    unfolding m1_def
    by (rule getCellUnderPoint_onlyLivenessDiffers [OF onlyLivenessDiffers_handleDragMotion])
  from Cons.IH [OF anchor] show ?case
    by (auto simp: m1_def [symmetric] same live)
qed

text \<open>
  Claim C6. With a drag anchor set, a drag-motion event applies \<open>CELL_SET_ALIVE\<close> to the
  cell under the pointer if the anchor cell is alive and \<open>CELL_SET_DEAD\<close> if it is dead.
  Hence after any sequence of drag-motion events every cell that was under the pointer at
  one of them has the liveness the anchor had when the drag began (alive after a drag from
  a live anchor, dead after one from a dead anchor), and every other cell is as it was.
  Without an anchor, drag motion leaves the map as it is.
\<close>

theorem drag_motion_paints:
  "(\<forall>a. dragStartCell m = Some a \<longrightarrow>
      handleDragMotion inRect motion m =
        setCellUnderPoint inRect (motion_x motion) (motion_y motion)
          (if isAlive (cellMap m a) then CELL_SET_ALIVE else CELL_SET_DEAD) m \<and>
      (let m' = fold (handleDragMotion inRect) motions m
       in dragStartCell m' = Some a \<and> onlyLivenessDiffers m m' \<and>
          (\<forall>cell. isAlive (cellMap m' cell) =
             (if Some cell \<in> set (map (\<lambda>mo. getCellUnderPoint inRect m (motion_x mo) (motion_y mo))
                                     motions)
              then isAlive (cellMap m a) else isAlive (cellMap m cell))))) \<and>
   (dragStartCell m = None \<longrightarrow>
      handleDragMotion inRect motion m = m \<and> fold (handleDragMotion inRect) motions m = m)"
proof (intro conjI allI impI)
  fix a assume a: "dragStartCell m = Some a"
  then show "handleDragMotion inRect motion m =
        setCellUnderPoint inRect (motion_x motion) (motion_y motion)
          (if isAlive (cellMap m a) then CELL_SET_ALIVE else CELL_SET_DEAD) m"
    by (simp add: handleDragMotion_def)
  show "let m' = fold (handleDragMotion inRect) motions m
       in dragStartCell m' = Some a \<and> onlyLivenessDiffers m m' \<and>
          (\<forall>cell. isAlive (cellMap m' cell) =
             (if Some cell \<in> set (map (\<lambda>mo. getCellUnderPoint inRect m (motion_x mo) (motion_y mo))
                                     motions)
              then isAlive (cellMap m a) else isAlive (cellMap m cell)))"
    unfolding Let_def
    using handleDragMotion_all [OF a, of inRect motions]
      onlyLivenessDiffers_fold [of "handleDragMotion inRect" m motions,
        OF onlyLivenessDiffers_handleDragMotion]
    by blast
next
  assume n: "dragStartCell m = None"
  then show "handleDragMotion inRect motion m = m" by (simp add: handleDragMotion_def)
  from n show "fold (handleDragMotion inRect) motions m = m"
    by (induction motions) (simp_all add: handleDragMotion_def)
qed

subsection \<open>A single-step request while playing\<close>

lemma tickIsDue_sameButRequest:
  "sameButRequest s t \<Longrightarrow> tickIsDue now freq s = tickIsDue now freq t"
  by (simp add: sameButRequest_def tickIsDue_def tick_isAFixedUpdate)

lemma frameAdvances_playing:
  "isPlaying (g_sim s) \<Longrightarrow> frameAdvances now freq s = tickIsDue now freq s"
  by (simp add: frameAdvances_def tickIsDue_def Let_def tick_fields)

lemma iterate_playing:
  assumes "isPlaying (g_sim s)"
  shows "snd (SDL_AppIterate now freq s) =
     (let s1 = tickSimulationTimer now freq s;
          s2 = (if tickIsDue now freq s
                then s1\<lparr>g_sim := (g_sim s1)\<lparr>shouldRunFrame := False\<rparr>,
                        g_map := simulateConwayIteration (g_map s)\<rparr>
                else s1)
      in s2\<lparr>g_sim := (g_sim s2)\<lparr>timestamp := timestamp (g_sim s2) + 1\<rparr>\<rparr>)"
  using assms
  by (simp add: SDL_AppIterate_def tickIsDue_def Let_def tick_fields g_map_tickSimulationTimer)

lemma iterate_playing_sameButRequest:
  assumes "isPlaying (g_sim s)" and "sameButRequest s t"
  shows "sameButRequest (snd (SDL_AppIterate now freq s)) (snd (SDL_AppIterate now freq t)) \<and>
         isPlaying (g_sim (snd (SDL_AppIterate now freq s))) \<and>
         shouldRunFrame (g_sim (snd (SDL_AppIterate now freq s))) =
           (shouldRunFrame (g_sim s) \<and> \<not> tickIsDue now freq s) \<and>
         shouldRunFrame (g_sim (snd (SDL_AppIterate now freq t))) =
           (shouldRunFrame (g_sim t) \<and> \<not> tickIsDue now freq s)"
proof -
  from assms have pt: "isPlaying (g_sim t)" by (simp add: sameButRequest_def)
  have due: "tickIsDue now freq t = tickIsDue now freq s"
    using assms(2) by (simp add: tickIsDue_sameButRequest)
  show ?thesis
    using assms
    unfolding iterate_playing [OF assms(1)] iterate_playing [OF pt] due
    by (simp add: sameButRequest_def Let_def tick_fields g_map_tickSimulationTimer
        tick_accumulatedSeconds tick_isAFixedUpdate)
qed

lemma playing_sameButRequest:
  assumes "isPlaying (g_sim s)" and "sameButRequest s t"
  shows "advanceTrace freq nows s = dueTrace freq nows s \<and>
         dueTrace freq nows t = dueTrace freq nows s \<and>
         advanceTrace freq nows t = dueTrace freq nows s \<and>
         sameButRequest (iterateAll freq nows s) (iterateAll freq nows t) \<and>
         shouldRunFrame (g_sim (iterateAll freq nows s)) =
           (shouldRunFrame (g_sim s) \<and> True \<notin> set (dueTrace freq nows s))"
  using assms
proof (induction nows arbitrary: s t)
  case Nil
  then show ?case by simp
next
  case (Cons now nows)
  define s2 where "s2 = snd (SDL_AppIterate now freq s)"
  define t2 where "t2 = snd (SDL_AppIterate now freq t)"
  from Cons.prems have pt: "isPlaying (g_sim t)" by (simp add: sameButRequest_def)
  note step = iterate_playing_sameButRequest [OF Cons.prems, of now freq, folded s2_def t2_def]
  from step have 1: "isPlaying (g_sim s2)" and 2: "sameButRequest s2 t2" by simp_all
  from Cons.IH [OF 1 2] step Cons.prems pt show ?case
    by (auto simp: s2_def [symmetric] t2_def [symmetric] frameAdvances_playing
        tickIsDue_sameButRequest [of s t])
qed

lemma SDL_AppEvent_sameButRequest:
  assumes "sameButRequest s t"
  shows "fst (SDL_AppEvent inRect event s) = fst (SDL_AppEvent inRect event t) \<and>
         sameButRequest (snd (SDL_AppEvent inRect event s)) (snd (SDL_AppEvent inRect event t))"
  using assms
  by (cases event) (simp_all add: SDL_AppEvent_def sameButRequest_def Let_def)

lemma SDL_AppIterate_continues: "fst (SDL_AppIterate now freq s) = SDL_APP_CONTINUE"
  by (simp add: SDL_AppIterate_def Let_def)

lemma callbacks_sameButRequest:
  assumes "sameButRequest s t" and "playingAtFrames inRect freq cbs s"
  shows "sameButRequest (runCallbacks inRect freq cbs s) (runCallbacks inRect freq cbs t)"
  using assms
proof (induction cbs arbitrary: s t)
  case Nil
  then show ?case by simp
next
  case (Cons cb cbs)
  obtain r s' where s': "callback inRect freq cb s = (r, s')" by (cases "callback inRect freq cb s")
  obtain r' t' where t': "callback inRect freq cb t = (r', t')" by (cases "callback inRect freq cb t")
  have step: "r' = r \<and> sameButRequest s' t'"
  proof (cases cb)
    case (AppEvent event)
    with SDL_AppEvent_sameButRequest [OF Cons.prems(1), of inRect event] s' t' show ?thesis
      by (simp add: callback_def)
  next
    case (AppIterate now)
    with Cons.prems(2) have "isPlaying (g_sim s)" by simp
    from iterate_playing_sameButRequest [OF this Cons.prems(1), of now freq] AppIterate s' t'
      SDL_AppIterate_continues [of now freq s] SDL_AppIterate_continues [of now freq t]
    show ?thesis by (simp add: callback_def)
  qed
  show ?case
  proof (cases r)
    case SDL_APP_CONTINUE
    with Cons.prems(2) s' have "playingAtFrames inRect freq cbs s'" by simp
    from Cons.IH [OF _ this, of t'] step SDL_APP_CONTINUE s' t' show ?thesis by simp
  qed (use step s' t' in simp_all)
qed

text \<open>
  Claim C10. While the program is playing, a single-step request changes no frame: with
  and without the request the same frames advance the generation, namely those whose tick
  is due, once each, and the two runs agree in everything but the request; the request is
  cleared by the first due tick. At a due tick the frame advances the grid by one
  generation and clears the request. The two runs also agree, in everything but the
  request, after any sequence of events and frames in which the program is playing at
  every frame.
\<close>

theorem single_step_while_playing:
  assumes "isPlaying (g_sim s)"
  shows "(let sT = s\<lparr>g_sim := (g_sim s)\<lparr>shouldRunFrame := True\<rparr>\<rparr>;
              sF = s\<lparr>g_sim := (g_sim s)\<lparr>shouldRunFrame := False\<rparr>\<rparr>;
              dues = dueTrace freq nows sT;
              endT = iterateAll freq nows sT;
              endF = iterateAll freq nows sF
          in advanceTrace freq nows sT = dues \<and>
             dueTrace freq nows sF = dues \<and>
             advanceTrace freq nows sF = dues \<and>
             sameButRequest endT endF \<and>
             g_map endT = g_map endF \<and>
             shouldRunFrame (g_sim endT) = (True \<notin> set dues) \<and>
             (\<forall>now. tickIsDue now freq sT \<longrightarrow>
                g_map (snd (SDL_AppIterate now freq sT)) = simulateConwayIteration (g_map s) \<and>
                \<not> shouldRunFrame (g_sim (snd (SDL_AppIterate now freq sT)))) \<and>
             (\<forall>inRect cbs. playingAtFrames inRect freq cbs sT \<longrightarrow>
                sameButRequest (runCallbacks inRect freq cbs sT) (runCallbacks inRect freq cbs sF)))"
proof -
  define sT where "sT = s\<lparr>g_sim := (g_sim s)\<lparr>shouldRunFrame := True\<rparr>\<rparr>"
  define sF where "sF = s\<lparr>g_sim := (g_sim s)\<lparr>shouldRunFrame := False\<rparr>\<rparr>"
  have p: "isPlaying (g_sim sT)" using assms by (simp add: sT_def)
  have r: "sameButRequest sT sF" by (simp add: sT_def sF_def sameButRequest_def)
  have one: "g_map (snd (SDL_AppIterate now freq sT)) = simulateConwayIteration (g_map s) \<and>
             \<not> shouldRunFrame (g_sim (snd (SDL_AppIterate now freq sT)))"
    if "tickIsDue now freq sT" for now
    using that unfolding iterate_playing [OF p] by (simp add: Let_def sT_def)
  have run: "sameButRequest (runCallbacks inRect freq cbs sT) (runCallbacks inRect freq cbs sF)"
    if "playingAtFrames inRect freq cbs sT" for inRect cbs
    using r that by (rule callbacks_sameButRequest)
  have frames: "advanceTrace freq nows sT = dueTrace freq nows sT"
    "dueTrace freq nows sF = dueTrace freq nows sT"
    "advanceTrace freq nows sF = dueTrace freq nows sT"
    "sameButRequest (iterateAll freq nows sT) (iterateAll freq nows sF)"
    "shouldRunFrame (g_sim (iterateAll freq nows sT)) = (True \<notin> set (dueTrace freq nows sT))"
    using playing_sameButRequest [OF p r, of freq nows] by (simp_all add: sT_def)
  from frames(4) have grid: "g_map (iterateAll freq nows sT) = g_map (iterateAll freq nows sF)"
    by (simp add: sameButRequest_def)
  show ?thesis
    unfolding Let_def sT_def [symmetric] sF_def [symmetric]
    using frames grid one run by blast
qed

section \<open>The theorems at concrete states\<close>

lemma startApp_fields:
  "g_map startApp = initMap (g_map zeroApp)"
  "g_sim startApp = \<lparr>isAFixedUpdate = False, timestamp = 0, fps = FPS,
                      isPlaying = False, shouldRunFrame = False\<rparr>"
  "accumulatedSeconds startApp = 0"
  by (simp_all add: startApp_def SDL_AppInit_def zeroApp_def)

lemma startApp_init: "SDL_AppInit True True 0 zeroApp = (SDL_APP_CONTINUE, startApp)"
  by (simp add: startApp_def SDL_AppInit_def)

lemma playingApp_fields:
  "g_map playingApp = g_map startApp"
  "g_sim playingApp = \<lparr>isAFixedUpdate = False, timestamp = 0, fps = FPS,
                        isPlaying = True, shouldRunFrame = False\<rparr>"
  "accumulatedSeconds playingApp = 0"
  by (simp_all add: playingApp_def SDL_AppEvent_def startApp_fields)

lemma isAlive_blinkerMap:
  "isAlive (cellMap blinkerMap cell) \<longleftrightarrow> cell \<in> {(1, 2), (2, 2), (3, 2)}"
  by (auto simp: blinkerMap_def cellMap_setIsAlive startApp_fields cellMap_initMap cellInit_def
      zeroApp_def zeroCell_def Let_def)

lemma toroidalTopology_blinkerMap: "toroidalTopology blinkerMap"
  unfolding blinkerMap_def startApp_fields
  by (intro toroidalTopology_onlyLivenessDiffers [OF onlyLivenessDiffers_setIsAlive]
      toroidalTopology_initMap)

lemma neighbors_blinkerMap:
  "inGrid cell \<Longrightarrow> neighbors (cellMap blinkerMap cell) = spec_torusNeighbors cell"
  using toroidalTopology_blinkerMap unfolding toroidalTopology_def by blast

lemma getNumLiveNeighbors_blinkerMap:
  "getNumLiveNeighbors blinkerMap (2, 1) = 3"
  "getNumLiveNeighbors blinkerMap (1, 2) = 1"
  "getNumLiveNeighbors blinkerMap (2, 2) = 2"
proof -
  have cells: "inGrid (2, 1)" "inGrid (1, 2)" "inGrid (2, 2)"
    by (simp_all add: inGrid_def GRID_SIZE_X_def GRID_SIZE_Y_def)
  have len: "length (neighbors (cellMap blinkerMap cell)) = NUM_CELL_NEIGHBORS" if "inGrid cell" for cell
    using that by (simp add: neighbors_blinkerMap length_spec_torusNeighbors)
  show "getNumLiveNeighbors blinkerMap (2, 1) = 3"
    unfolding getNumLiveNeighbors_count [OF len [OF cells(1)]] neighbors_blinkerMap [OF cells(1)]
    by (simp add: isAlive_blinkerMap spec_torusNeighbors_def GRID_SIZE_X_def GRID_SIZE_Y_def)
  show "getNumLiveNeighbors blinkerMap (1, 2) = 1"
    unfolding getNumLiveNeighbors_count [OF len [OF cells(2)]] neighbors_blinkerMap [OF cells(2)]
    by (simp add: isAlive_blinkerMap spec_torusNeighbors_def GRID_SIZE_X_def GRID_SIZE_Y_def)
  show "getNumLiveNeighbors blinkerMap (2, 2) = 2"
    unfolding getNumLiveNeighbors_count [OF len [OF cells(3)]] neighbors_blinkerMap [OF cells(3)]
    by (simp add: isAlive_blinkerMap spec_torusNeighbors_def GRID_SIZE_X_def GRID_SIZE_Y_def)
qed

theorem simulateConwayIteration_two_phase_witness:
  "toroidalTopology blinkerMap \<and>
   inGrid (2, 1) \<and> \<not> isAlive (cellMap blinkerMap (2, 1)) \<and>
   getNumLiveNeighbors blinkerMap (2, 1) = 3 \<and>
   isAlive (cellMap (simulateConwayIteration blinkerMap) (2, 1)) \<and>
   inGrid (1, 2) \<and> isAlive (cellMap blinkerMap (1, 2)) \<and>
   getNumLiveNeighbors blinkerMap (1, 2) = 1 \<and>
   \<not> isAlive (cellMap (simulateConwayIteration blinkerMap) (1, 2)) \<and>
   inGrid (2, 2) \<and> isAlive (cellMap blinkerMap (2, 2)) \<and>
   getNumLiveNeighbors blinkerMap (2, 2) = 2 \<and>
   isAlive (cellMap (simulateConwayIteration blinkerMap) (2, 2))"
  using simulateConwayIteration_two_phase [of "(2, 1)" blinkerMap]
    simulateConwayIteration_two_phase [of "(1, 2)" blinkerMap]
    simulateConwayIteration_two_phase [of "(2, 2)" blinkerMap]
  by (simp add: Let_def getNumLiveNeighbors_blinkerMap isAlive_blinkerMap spec_nextState_def
      toroidalTopology_blinkerMap inGrid_def GRID_SIZE_X_def GRID_SIZE_Y_def)

theorem neighbor_topology_witness:
  "SDL_AppInit True True 0 zeroApp = (SDL_APP_CONTINUE, startApp) \<and> inGrid (0, 0) \<and>
   neighbors (cellMap (g_map (runCallbacks SDL_PointInRectFloat 1000
       [AppEvent (SDL_EVENT_KEY_DOWN \<lparr>key = SDLK_R\<rparr>), AppIterate 100] startApp)) (0, 0)) =
     [(39, 0), (39, 39), (39, 1), (1, 0), (1, 39), (1, 1), (0, 39), (0, 1)]"
  using neighbor_topology [OF startApp_init, of "(0, 0)" SDL_PointInRectFloat 1000
      "[AppEvent (SDL_EVENT_KEY_DOWN \<lparr>key = SDLK_R\<rparr>), AppIterate 100]"]
  by (simp add: Let_def startApp_init spec_torusNeighbors_def inGrid_def
      GRID_SIZE_X_def GRID_SIZE_Y_def)

theorem left_drag_motion_pauses_witness:
  "state \<lparr>state = SDL_BUTTON_LMASK, motion_x = - 5, motion_y = - 5\<rparr> = SDL_BUTTON_LMASK \<and>
   isPlaying (g_sim playingApp) \<and> dragStartCell (g_map playingApp) = None \<and>
   \<not> isPlaying (g_sim (snd (SDL_AppEvent SDL_PointInRectFloat
        (SDL_EVENT_MOUSE_MOTION \<lparr>state = SDL_BUTTON_LMASK, motion_x = - 5, motion_y = - 5\<rparr>)
        playingApp)))"
  using left_drag_motion_pauses [of "\<lparr>state = SDL_BUTTON_LMASK, motion_x = - 5, motion_y = - 5\<rparr>"
      SDL_PointInRectFloat playingApp]
  by (simp add: Let_def playingApp_fields startApp_fields initMap_def zeroApp_def
      dragStartCell_fold initCell_def)

theorem reset_clears_grid_witness:
  "toroidalTopology (g_map blinkerApp) \<and> key \<lparr>key = SDLK_R\<rparr> = SDLK_R \<and>
   inGrid (2, 2) \<and> inGrid (2, 1) \<and>
   isAlive (cellMap (g_map blinkerApp) (2, 2)) \<and>
   \<not> isAlive (cellMap (g_map (snd (SDL_AppEvent SDL_PointInRectFloat
        (SDL_EVENT_KEY_DOWN \<lparr>key = SDLK_R\<rparr>) blinkerApp))) (2, 2)) \<and>
   getNumLiveNeighbors (g_map (snd (SDL_AppEvent SDL_PointInRectFloat
        (SDL_EVENT_KEY_DOWN \<lparr>key = SDLK_R\<rparr>) blinkerApp))) (2, 1) = 0"
proof -
  have topo: "toroidalTopology (g_map blinkerApp)"
    by (simp add: blinkerApp_def toroidalTopology_blinkerMap)
  have k: "key \<lparr>key = SDLK_R\<rparr> = SDLK_R" by simp
  have cells: "inGrid (2, 2)" "inGrid (2, 1)"
    by (simp_all add: inGrid_def GRID_SIZE_X_def GRID_SIZE_Y_def)
  have before: "isAlive (cellMap (g_map blinkerApp) (2, 2))"
    by (simp add: blinkerApp_def isAlive_blinkerMap)
  from reset_clears_grid [OF topo k, of SDL_PointInRectFloat] cells
  have "\<not> isAlive (cellMap (g_map (snd (SDL_AppEvent SDL_PointInRectFloat
            (SDL_EVENT_KEY_DOWN \<lparr>key = SDLK_R\<rparr>) blinkerApp))) (2, 2))"
    and "getNumLiveNeighbors (g_map (snd (SDL_AppEvent SDL_PointInRectFloat
            (SDL_EVENT_KEY_DOWN \<lparr>key = SDLK_R\<rparr>) blinkerApp))) (2, 1) = 0"
    unfolding Let_def by blast+
  with topo k cells before show ?thesis by blast
qed

lemma blinkerApp_fields:
  "g_map blinkerApp = blinkerMap"
  "g_sim blinkerApp = \<lparr>isAFixedUpdate = False, timestamp = 0, fps = FPS,
                        isPlaying = False, shouldRunFrame = False\<rparr>"
  "accumulatedSeconds blinkerApp = 0"
  by (simp_all add: blinkerApp_def startApp_fields)

lemma stepRequestedApp_fields:
  "g_map stepRequestedApp = blinkerMap"
  "g_sim stepRequestedApp = \<lparr>isAFixedUpdate = False, timestamp = 0, fps = FPS,
                              isPlaying = False, shouldRunFrame = True\<rparr>"
  "accumulatedSeconds stepRequestedApp = 0"
  by (simp_all add: stepRequestedApp_def SDL_AppEvent_def blinkerApp_fields
      SDLK_PERIOD_def SDLK_P_def)

lemma binary64_values:
  "binary64 (1 / 20) = 3602879701896397 / 72057594037927936"
  "binary64 10 = 10" "binary64 90 = 90" "binary64 150 = 150" "binary64 1000 = 1000"
  "binary64 (1 / 100) = 5764607523034235 / 576460752303423488"
  "binary64 (5764607523034235 / 576460752303423488) = 5764607523034235 / 576460752303423488"
  "binary64 (9 / 100) = 3242591731706757 / 36028797018963968"
  "binary64 (57646075230342347 / 576460752303423488) = 7205759403792793 / 72057594037927936"
  "binary64 (900719925474099 / 18014398509481984) = 900719925474099 / 18014398509481984"
  "binary64 (3 / 20) = 5404319552844595 / 36028797018963968"
  "binary64 (5404319552844595 / 36028797018963968) = 5404319552844595 / 36028797018963968"
  "binary64 (7205759403792793 / 72057594037927936) = 7205759403792793 / 72057594037927936"
  "binary64 70 = 70"
  "binary64 (7 / 100) = 1261007895663739 / 18014398509481984"
  "binary64 (1261007895663739 / 18014398509481984) = 1261007895663739 / 18014398509481984"
  "binary64 (1441151880758559 / 72057594037927936) = 1441151880758559 / 72057594037927936"
  by code_simp+

text \<open>
  A tick 70 ms after the start keeps 0.020000000000000004 s in \<open>double\<close> arithmetic, and
  1/50 s in exact arithmetic.
\<close>

lemma tick_rounded_at_70:
  "isAFixedUpdate (g_sim (tickSimulationTimer_rounded binary64 70 1000 startApp)) \<and>
   accumulatedSeconds (tickSimulationTimer_rounded binary64 70 1000 startApp) =
     1441151880758559 / 72057594037927936 \<and>
   accumulatedSeconds (tickSimulationTimer 70 1000 startApp) = 1 / 50"
  by (simp add: tick_rounded_accumulatedSeconds tick_rounded_isAFixedUpdate
      tick_accumulatedSeconds Let_def startApp_fields FPS_def binary64_values)

theorem tick_fired_accumulator_witness:
  "roundingLaws binary64 \<and>
   \<not> isAFixedUpdate (g_sim (tickSimulationTimer_rounded binary64 10 1000 startApp)) \<and>
   isAFixedUpdate (g_sim (tickSimulationTimer_rounded binary64 100 1000
      (tickSimulationTimer_rounded binary64 10 1000 startApp))) \<and>
   binary64 (1 / fps (g_sim startApp)) = 3602879701896397 / 72057594037927936 \<and>
   accumulatedSeconds (tickSimulationTimer_rounded binary64 100 1000
      (tickSimulationTimer_rounded binary64 10 1000 startApp)) =
     900719925474099 / 18014398509481984 \<and>
   0 < accumulatedSeconds (tickSimulationTimer_rounded binary64 100 1000
      (tickSimulationTimer_rounded binary64 10 1000 startApp)) \<and>
   accumulatedSeconds (tickSimulationTimer_rounded binary64 100 1000
      (tickSimulationTimer_rounded binary64 10 1000 startApp)) <
     binary64 (1 / fps (g_sim startApp))"
proof -
  define s1 where "s1 = tickSimulationTimer_rounded binary64 10 1000 startApp"
  define s2 where "s2 = tickSimulationTimer_rounded binary64 100 1000 s1"
  have f1: "fps (g_sim s1) = 20" "timestamp (g_sim s1) = 10"
    by (simp_all add: s1_def tick_rounded_fields startApp_fields FPS_def)
  have a1: "accumulatedSeconds s1 = 5764607523034235 / 576460752303423488"
    and d1: "\<not> isAFixedUpdate (g_sim s1)"
    unfolding s1_def
    by (simp_all add: tick_rounded_accumulatedSeconds tick_rounded_isAFixedUpdate Let_def
        startApp_fields FPS_def binary64_values)
  have d2: "isAFixedUpdate (g_sim (tickSimulationTimer_rounded binary64 100 1000 s1))"
    by (simp add: tick_rounded_isAFixedUpdate f1 a1 binary64_values)
  have c: "binary64 (1 / fps (g_sim startApp)) = 3602879701896397 / 72057594037927936"
    by (simp add: startApp_fields FPS_def binary64_values)
  have total: "binary64 (accumulatedSeconds s1 +
      binary64 (binary64 (of_nat (unat (100 - timestamp (g_sim s1)))) / binary64 (of_nat (unat (1000 :: 64 word))))) =
      7205759403792793 / 72057594037927936"
    by (simp add: f1 a1 binary64_values)
  from tick_fired_accumulator [OF roundingLaws_binary64 d2]
  have "accumulatedSeconds s2 = 900719925474099 / 18014398509481984"
    and "0 < accumulatedSeconds s2"
    and "accumulatedSeconds s2 < binary64 (1 / fps (g_sim startApp))"
    unfolding Let_def s2_def [symmetric] total
    by (simp_all add: f1 c binary64_values)
  with roundingLaws_binary64 d1 d2 c show ?thesis unfolding s1_def s2_def by blast
qed

theorem tick_fired_accumulator_counterexample:
  "timestamp (g_sim startApp) \<le> 150 \<and>
   isAFixedUpdate (g_sim (tickSimulationTimer 150 1000 startApp)) \<and>
   \<not> accumulatedSeconds (tickSimulationTimer 150 1000 startApp) < 1 / fps (g_sim startApp) \<and>
   isAFixedUpdate (g_sim (tickSimulationTimer_rounded binary64 150 1000 startApp)) \<and>
   accumulatedSeconds (tickSimulationTimer_rounded binary64 150 1000 startApp) =
     7205759403792793 / 72057594037927936 \<and>
   \<not> accumulatedSeconds (tickSimulationTimer_rounded binary64 150 1000 startApp) <
       binary64 (1 / fps (g_sim startApp))"
proof -
  have exact: "timestamp (g_sim startApp) \<le> 150"
    "isAFixedUpdate (g_sim (tickSimulationTimer 150 1000 startApp))"
    "\<not> accumulatedSeconds (tickSimulationTimer 150 1000 startApp) < 1 / fps (g_sim startApp)"
    by (simp_all add: tickSimulationTimer_def Let_def startApp_fields FPS_def)
  have rounded: "isAFixedUpdate (g_sim (tickSimulationTimer_rounded binary64 150 1000 startApp))"
    "accumulatedSeconds (tickSimulationTimer_rounded binary64 150 1000 startApp) =
       7205759403792793 / 72057594037927936"
    "binary64 (1 / fps (g_sim startApp)) = 3602879701896397 / 72057594037927936"
    by (simp_all add: tick_rounded_accumulatedSeconds tick_rounded_isAFixedUpdate Let_def
        startApp_fields FPS_def binary64_values)
  from rounded have "\<not> accumulatedSeconds (tickSimulationTimer_rounded binary64 150 1000 startApp) <
       binary64 (1 / fps (g_sim startApp))"
    by simp
  with exact rounded show ?thesis by blast
qed

theorem tick_every_cycle_period_witness:
  "accumulatedSeconds startApp = 0 \<and> 0 < fps (g_sim startApp) \<and>
   of_nat (unat (50 :: 64 word)) / of_nat (unat (1000 :: 64 word)) = 1 / fps (g_sim startApp) \<and>
   \<not> isAFixedUpdate (g_sim (tickEvery 1000 50 (Suc 0) startApp)) \<and>
   accumulatedSeconds (tickEvery 1000 50 (Suc 0) startApp) = 1 / 20 \<and>
   isAFixedUpdate (g_sim (tickEvery 1000 50 (Suc (Suc 0)) startApp)) \<and>
   accumulatedSeconds (tickEvery 1000 50 (Suc (Suc 0)) startApp) = 1 / 20"
proof -
  have h: "accumulatedSeconds startApp = 0" "0 < fps (g_sim startApp)"
    "of_nat (unat (50 :: 64 word)) / of_nat (unat (1000 :: 64 word)) = 1 / fps (g_sim startApp)"
    by (simp_all add: startApp_fields FPS_def)
  from tick_every_cycle_period [OF h, of 0] tick_every_cycle_period [OF h, of "Suc 0"] h
  show ?thesis by (simp add: startApp_fields FPS_def)
qed

theorem tick_every_cycle_period_counterexample:
  "accumulatedSeconds startApp = 0 \<and>
   of_nat (unat (50 :: 64 word)) / of_nat (unat (1000 :: 64 word)) = 1 / fps (g_sim startApp) \<and>
   \<not> isAFixedUpdate (g_sim (tickEvery 1000 50 (Suc 0) startApp)) \<and>
   isAFixedUpdate (g_sim (tickEvery 1000 50 (Suc (Suc 0)) startApp)) \<and>
   accumulatedSeconds (tickEvery 1000 50 (Suc (Suc 0)) startApp) = 1 / 20"
  by (simp add: tickSimulationTimer_def Let_def startApp_fields FPS_def)

theorem single_step_once_witness:
  "\<not> isPlaying (g_sim stepRequestedApp) \<and> shouldRunFrame (g_sim stepRequestedApp) \<and>
   dueTrace 1000 [30, 100, 200, 300] stepRequestedApp = [False, True, True, True] \<and>
   advanceTrace 1000 [30, 100, 200, 300] stepRequestedApp = [False, True, False, False] \<and>
   g_map (iterateAll 1000 [30, 100, 200, 300] stepRequestedApp) =
     simulateConwayIteration blinkerMap \<and>
   \<not> shouldRunFrame (g_sim (iterateAll 1000 [30, 100, 200, 300] stepRequestedApp))"
proof -
  have h: "\<not> isPlaying (g_sim stepRequestedApp)" "shouldRunFrame (g_sim stepRequestedApp)"
    by (simp_all add: stepRequestedApp_fields)
  have dues: "dueTrace 1000 [30, 100, 200, 300] stepRequestedApp = [False, True, True, True]"
    by (simp add: tickIsDue_def SDL_AppIterate_def tickSimulationTimer_def Let_def
        stepRequestedApp_fields FPS_def)
  from single_step_once [OF h, of 1000 "[30, 100, 200, 300]"] h dues
  show ?thesis by (simp add: Let_def stepRequestedApp_fields)
qed

theorem single_step_while_playing_witness:
  "isPlaying (g_sim playingApp) \<and>
   dueTrace 1000 [30, 100, 200]
     (playingApp\<lparr>g_sim := (g_sim playingApp)\<lparr>shouldRunFrame := True\<rparr>\<rparr>) = [False, True, True] \<and>
   advanceTrace 1000 [30, 100, 200]
     (playingApp\<lparr>g_sim := (g_sim playingApp)\<lparr>shouldRunFrame := True\<rparr>\<rparr>) = [False, True, True] \<and>
   advanceTrace 1000 [30, 100, 200]
     (playingApp\<lparr>g_sim := (g_sim playingApp)\<lparr>shouldRunFrame := False\<rparr>\<rparr>) = [False, True, True] \<and>
   \<not> shouldRunFrame (g_sim (iterateAll 1000 [30, 100, 200]
     (playingApp\<lparr>g_sim := (g_sim playingApp)\<lparr>shouldRunFrame := True\<rparr>\<rparr>))) \<and>
   tickIsDue 100 1000 (playingApp\<lparr>g_sim := (g_sim playingApp)\<lparr>shouldRunFrame := True\<rparr>\<rparr>) \<and>
   g_map (snd (SDL_AppIterate 100 1000
     (playingApp\<lparr>g_sim := (g_sim playingApp)\<lparr>shouldRunFrame := True\<rparr>\<rparr>))) =
     simulateConwayIteration (g_map playingApp) \<and>
   playingAtFrames SDL_PointInRectFloat 1000
     [AppIterate 30, AppEvent (SDL_EVENT_KEY_DOWN \<lparr>key = SDLK_R\<rparr>), AppIterate 100]
     (playingApp\<lparr>g_sim := (g_sim playingApp)\<lparr>shouldRunFrame := True\<rparr>\<rparr>) \<and>
   g_map (runCallbacks SDL_PointInRectFloat 1000
     [AppIterate 30, AppEvent (SDL_EVENT_KEY_DOWN \<lparr>key = SDLK_R\<rparr>), AppIterate 100]
     (playingApp\<lparr>g_sim := (g_sim playingApp)\<lparr>shouldRunFrame := True\<rparr>\<rparr>)) =
   g_map (runCallbacks SDL_PointInRectFloat 1000
     [AppIterate 30, AppEvent (SDL_EVENT_KEY_DOWN \<lparr>key = SDLK_R\<rparr>), AppIterate 100]
     (playingApp\<lparr>g_sim := (g_sim playingApp)\<lparr>shouldRunFrame := False\<rparr>\<rparr>))"
proof -
  define sT where "sT = playingApp\<lparr>g_sim := (g_sim playingApp)\<lparr>shouldRunFrame := True\<rparr>\<rparr>"
  define sF where "sF = playingApp\<lparr>g_sim := (g_sim playingApp)\<lparr>shouldRunFrame := False\<rparr>\<rparr>"
  define cbs where "cbs = [AppIterate 30, AppEvent (SDL_EVENT_KEY_DOWN \<lparr>key = SDLK_R\<rparr>), AppIterate 100]"
  have h: "isPlaying (g_sim playingApp)" by (simp add: playingApp_fields)
  have dues: "dueTrace 1000 [30, 100, 200] sT = [False, True, True]"
    by (simp add: sT_def tickIsDue_def SDL_AppIterate_def tickSimulationTimer_def Let_def
        playingApp_fields FPS_def)
  have due: "tickIsDue 100 1000 sT"
    by (simp add: sT_def tickIsDue_def tickSimulationTimer_def Let_def playingApp_fields FPS_def)
  have frames: "playingAtFrames SDL_PointInRectFloat 1000 cbs sT"
    by (simp add: sT_def cbs_def callback_def SDL_AppIterate_def SDL_AppEvent_def
        tickSimulationTimer_def Let_def playingApp_fields FPS_def SDLK_R_def SDLK_P_def
        SDLK_PERIOD_def)
  note inst = single_step_while_playing [OF h, of 1000 "[30, 100, 200]", unfolded Let_def,
      folded sT_def sF_def]
  from inst have "sameButRequest (runCallbacks SDL_PointInRectFloat 1000 cbs sT)
      (runCallbacks SDL_PointInRectFloat 1000 cbs sF)"
    using frames by blast
  then have run: "g_map (runCallbacks SDL_PointInRectFloat 1000 cbs sT) =
      g_map (runCallbacks SDL_PointInRectFloat 1000 cbs sF)"
    by (simp add: sameButRequest_def)
  from inst due have one: "g_map (snd (SDL_AppIterate 100 1000 sT)) =
      simulateConwayIteration (g_map playingApp)"
    by blast
  from inst dues have "advanceTrace 1000 [30, 100, 200] sT = [False, True, True]"
    "advanceTrace 1000 [30, 100, 200] sF = [False, True, True]"
    "\<not> shouldRunFrame (g_sim (iterateAll 1000 [30, 100, 200] sT))"
    by simp_all
  with h dues due frames run one show ?thesis
    unfolding sT_def sF_def cbs_def by blast
qed

lemma gridGeometry_startApp: "gridGeometry (g_map startApp)"
  by (simp add: startApp_fields gridGeometry_initMap)

lemma onlyLivenessDiffers_blinkerMap: "onlyLivenessDiffers (g_map startApp) blinkerMap"
  unfolding blinkerMap_def
  by (intro onlyLivenessDiffers_trans [OF _ onlyLivenessDiffers_setIsAlive]
      onlyLivenessDiffers_setIsAlive)

lemma gridGeometry_dragMaps: "gridGeometry dragLiveMap" "gridGeometry dragDeadMap"
proof -
  have "onlyLivenessDiffers blinkerMap dragLiveMap" "onlyLivenessDiffers blinkerMap dragDeadMap"
    by (simp_all add: onlyLivenessDiffers_def dragLiveMap_def dragDeadMap_def)
  with onlyLivenessDiffers_blinkerMap
  have "onlyLivenessDiffers (g_map startApp) dragLiveMap"
    "onlyLivenessDiffers (g_map startApp) dragDeadMap"
    by (auto intro: onlyLivenessDiffers_trans)
  with gridGeometry_startApp show "gridGeometry dragLiveMap" "gridGeometry dragDeadMap"
    by (auto intro: gridGeometry_onlyLivenessDiffers)
qed

lemma inGrid_examples: "inGrid (1, 2)" "inGrid (1, 0)" "inGrid (2, 0)" "inGrid (2, 2)"
  by (simp_all add: inGrid_def GRID_SIZE_X_def GRID_SIZE_Y_def)

theorem left_button_down_witness:
  "button \<lparr>button = SDL_BUTTON_LEFT, button_x = 30, button_y = 50\<rparr> = SDL_BUTTON_LEFT \<and>
   isPlaying (g_sim playingApp) \<and>
   getCellUnderPoint SDL_PointInRectFloat (g_map playingApp) 30 50 = Some (1, 2) \<and>
   \<not> isAlive (cellMap (g_map playingApp) (1, 2)) \<and>
   \<not> isPlaying (g_sim (snd (SDL_AppEvent SDL_PointInRectFloat
        (SDL_EVENT_MOUSE_BUTTON_DOWN \<lparr>button = SDL_BUTTON_LEFT, button_x = 30, button_y = 50\<rparr>)
        playingApp))) \<and>
   dragStartCell (g_map (snd (SDL_AppEvent SDL_PointInRectFloat
        (SDL_EVENT_MOUSE_BUTTON_DOWN \<lparr>button = SDL_BUTTON_LEFT, button_x = 30, button_y = 50\<rparr>)
        playingApp))) = Some (1, 2) \<and>
   isAlive (cellMap (g_map (snd (SDL_AppEvent SDL_PointInRectFloat
        (SDL_EVENT_MOUSE_BUTTON_DOWN \<lparr>button = SDL_BUTTON_LEFT, button_x = 30, button_y = 50\<rparr>)
        playingApp))) (1, 2))"
proof -
  define b where "b = \<lparr>button = SDL_BUTTON_LEFT, button_x = 30, button_y = 50\<rparr>"
  have left: "button b = SDL_BUTTON_LEFT" by (simp add: b_def)
  have under: "getCellUnderPoint SDL_PointInRectFloat (g_map playingApp) 30 50 = Some (1, 2)"
    using gridGeometry_startApp inGrid_examples(1)
    by (simp add: playingApp_fields getCellUnderPoint_on_grid SDL_PointInRectFloat_cellRect)
  have dead: "\<not> isAlive (cellMap (g_map playingApp) (1, 2))"
    using inGrid_examples(1)
    by (simp add: playingApp_fields startApp_fields cellMap_initMap cellInit_def Let_def)
  from left_button_down [OF left, of SDL_PointInRectFloat playingApp]
  show ?thesis
    unfolding b_def [symmetric]
    using left dead under by (simp add: Let_def b_def playingApp_fields)
qed

theorem drag_motion_paints_witness:
  "dragStartCell dragLiveMap = Some (2, 2) \<and> isAlive (cellMap dragLiveMap (2, 2)) \<and>
   \<not> isAlive (cellMap dragLiveMap (1, 0)) \<and> \<not> isAlive (cellMap dragLiveMap (2, 0)) \<and>
   isAlive (cellMap (fold (handleDragMotion SDL_PointInRectFloat)
      [\<lparr>state = SDL_BUTTON_LMASK, motion_x = 30, motion_y = 10\<rparr>,
       \<lparr>state = SDL_BUTTON_LMASK, motion_x = 50, motion_y = 10\<rparr>] dragLiveMap) (1, 0)) \<and>
   isAlive (cellMap (fold (handleDragMotion SDL_PointInRectFloat)
      [\<lparr>state = SDL_BUTTON_LMASK, motion_x = 30, motion_y = 10\<rparr>,
       \<lparr>state = SDL_BUTTON_LMASK, motion_x = 50, motion_y = 10\<rparr>] dragLiveMap) (2, 0)) \<and>
   dragStartCell dragDeadMap = Some (5, 5) \<and> \<not> isAlive (cellMap dragDeadMap (5, 5)) \<and>
   isAlive (cellMap dragDeadMap (2, 2)) \<and>
   \<not> isAlive (cellMap (fold (handleDragMotion SDL_PointInRectFloat)
      [\<lparr>state = SDL_BUTTON_LMASK, motion_x = 50, motion_y = 50\<rparr>] dragDeadMap) (2, 2))"
proof -
  have under: "getCellUnderPoint SDL_PointInRectFloat dragLiveMap 30 10 = Some (1, 0)"
    "getCellUnderPoint SDL_PointInRectFloat dragLiveMap 50 10 = Some (2, 0)"
    "getCellUnderPoint SDL_PointInRectFloat dragDeadMap 50 50 = Some (2, 2)"
    using gridGeometry_dragMaps inGrid_examples
    by (simp_all add: getCellUnderPoint_on_grid SDL_PointInRectFloat_cellRect)
  have before: "dragStartCell dragLiveMap = Some (2, 2)" "isAlive (cellMap dragLiveMap (2, 2))"
    "\<not> isAlive (cellMap dragLiveMap (1, 0))" "\<not> isAlive (cellMap dragLiveMap (2, 0))"
    "dragStartCell dragDeadMap = Some (5, 5)" "\<not> isAlive (cellMap dragDeadMap (5, 5))"
    "isAlive (cellMap dragDeadMap (2, 2))"
    by (simp_all add: dragLiveMap_def dragDeadMap_def isAlive_blinkerMap)
  define stroke where "stroke =
      [\<lparr>state = SDL_BUTTON_LMASK, motion_x = 30, motion_y = 10\<rparr>,
       \<lparr>state = SDL_BUTTON_LMASK, motion_x = 50, motion_y = (10::rat)\<rparr>]"
  define point where "point = [\<lparr>state = SDL_BUTTON_LMASK, motion_x = 50, motion_y = (50::rat)\<rparr>]"
  from drag_motion_paints [of dragLiveMap SDL_PointInRectFloat "hd stroke" stroke] before(1)
  have live: "isAlive (cellMap (fold (handleDragMotion SDL_PointInRectFloat) stroke dragLiveMap) cell) =
      (if Some cell \<in> set (map (\<lambda>mo. getCellUnderPoint SDL_PointInRectFloat dragLiveMap
                                      (motion_x mo) (motion_y mo)) stroke)
       then isAlive (cellMap dragLiveMap (2, 2)) else isAlive (cellMap dragLiveMap cell))" for cell
    unfolding Let_def by blast
  from drag_motion_paints [of dragDeadMap SDL_PointInRectFloat "hd point" point] before(5)
  have dead: "isAlive (cellMap (fold (handleDragMotion SDL_PointInRectFloat) point dragDeadMap) cell) =
      (if Some cell \<in> set (map (\<lambda>mo. getCellUnderPoint SDL_PointInRectFloat dragDeadMap
                                      (motion_x mo) (motion_y mo)) point)
       then isAlive (cellMap dragDeadMap (5, 5)) else isAlive (cellMap dragDeadMap cell))" for cell
    unfolding Let_def by blast
  have "isAlive (cellMap (fold (handleDragMotion SDL_PointInRectFloat) stroke dragLiveMap) (1, 0))"
    "isAlive (cellMap (fold (handleDragMotion SDL_PointInRectFloat) stroke dragLiveMap) (2, 0))"
    "\<not> isAlive (cellMap (fold (handleDragMotion SDL_PointInRectFloat) point dragDeadMap) (2, 2))"
    unfolding live dead using before under by (simp_all add: stroke_def point_def)
  with before show ?thesis unfolding stroke_def point_def by blast
qed

end
